theory Spec2Isabelle
  imports Main "HOL-Library.Sublist" "HOL-Library.List_Lexorder" "HOL-Library.Char_ord"
begin

section \<open>The streaming HTTP response parser (http\_client.cc)\<close>

text \<open>
  \<open>HttpResponseParser\<close> keeps three members between calls of \<open>feed\<close>: the stage
  \<open>state_\<close> (0 status line, 1 headers, 2 body), the carry-over \<open>buffer_\<close> and
  \<open>remainingBody_\<close> (a \<open>uint64_t\<close>, here a natural number: it is only ever decreased
  by at most its own value, and the conversion from \<open>int\<close> that fills it is written out).
  The members lose their trailing underscore here, which an Isabelle name cannot end in.
  The four callbacks are recorded as a list of events, in the order of the calls.
\<close>

abbreviation CR :: char where "CR \<equiv> CHR 0x0D"
abbreviation LF :: char where "LF \<equiv> CHR 0x0A"

datatype event =
    OnResponseStart string int
  | OnHeader string
  | OnData string
  | OnDone

text \<open>
  Every \<open>throw ML::Exception(...)\<close> of the parser is a constructor. \<open>AntoiFailed\<close> stands
  for whatever \<open>ML::antoi\<close> may raise, and \<open>Spins\<close> for the \<open>while (true)\<close> loop of
  \<open>feed\<close> finding \<open>state_\<close> outside 0, 1, 2 with input left: no branch of the loop body
  applies then and the loop never ends.
\<close>

datatype exn =
    UnexpectedEndOfLine
  | VersionMustStartWithHTTP
  | VersionTooLong
  | CodeTooLong
  | ExpectedNewline
  | AntoiFailed
  | Spins

record HttpResponseParser =
  state :: nat
  buffer :: string
  remainingBody :: nat

definition clear :: HttpResponseParser where
  "clear = \<lparr>state = 0, buffer = [], remainingBody = 0\<rparr>"

text \<open>
  \<open>ML::antoi\<close> (jml/utils/string\_functions.h) is not part of the sources at hand, so the
  parser takes it as a parameter: a function from the bytes between the two pointers to
  the parsed \<open>int\<close>, or to an exception.
\<close>

type_synonym antoi_fn = "string \<Rightarrow> exn + int"

text \<open>The conversion of the \<open>int\<close> result to \<open>uint64_t\<close>.\<close>

definition to_uint64 :: "int \<Rightarrow> nat" where
  "to_uint64 i = nat (i mod 2 ^ 64)"

text \<open>
  The lambda \<open>skipToChar\<close> of \<open>feed\<close> moves the local \<open>ptr\<close>; the model returns the
  flag together with the new value of \<open>ptr\<close>.
\<close>

function skipToChar :: "string \<Rightarrow> nat \<Rightarrow> char \<Rightarrow> bool \<Rightarrow> exn + (bool \<times> nat)" where
  "skipToChar data ptr c throwOnEol =
     (if ptr < length data then
        if data ! ptr = c then Inr (True, ptr)
        else if throwOnEol \<and> (data ! ptr = CR \<or> data ! ptr = LF) then Inl UnexpectedEndOfLine
        else skipToChar data (ptr + 1) c throwOnEol
      else Inr (False, ptr))"
  by pat_completeness auto
termination
  by (relation "measure (\<lambda>(data, ptr, c, t). length data - ptr)") auto

declare skipToChar.simps [simp del]

subsection \<open>handleHeader\<close>

text \<open>\<open>tolower\<close> of the C locale, as \<open>strncasecmp\<close> applies it to each byte.\<close>

definition tolower :: "char \<Rightarrow> char" where
  "tolower c = (let n = (of_char c :: nat) in if 65 \<le> n \<and> n \<le> 90 then char_of (n + 32) else c)"

text \<open>
  The lambda \<open>matchString\<close>: the test string has no NUL byte, so \<open>strncasecmp\<close> over
  \<open>len\<close> bytes is equality of the lower-cased bytes.
\<close>

definition matchString :: "string \<Rightarrow> nat \<Rightarrow> string \<Rightarrow> bool \<times> nat" where
  "matchString data ptr testString =
     (let len = length testString in
      if length data \<ge> ptr + len
         \<and> map tolower (take len (drop ptr data)) = map tolower testString
      then (True, ptr + len) else (False, ptr))"

text \<open>The lambda \<open>skipChar\<close>: step over a run of the byte \<open>c\<close>.\<close>

function skipChar :: "string \<Rightarrow> nat \<Rightarrow> char \<Rightarrow> nat" where
  "skipChar data ptr c =
     (if ptr < length data \<and> data ! ptr = c then skipChar data (ptr + 1) c else ptr)"
  by pat_completeness auto
termination
  by (relation "measure (\<lambda>(data, ptr, c). length data - ptr)") auto

declare skipChar.simps [simp del]

text \<open>The lambda \<open>skipToChar\<close> of \<open>handleHeader\<close>, which never throws.\<close>

function skipToCharH :: "string \<Rightarrow> nat \<Rightarrow> char \<Rightarrow> bool \<times> nat" where
  "skipToCharH data ptr c =
     (if ptr < length data then
        if data ! ptr = c then (True, ptr) else skipToCharH data (ptr + 1) c
      else (False, ptr))"
  by pat_completeness auto
termination
  by (relation "measure (\<lambda>(data, ptr, c). length data - ptr)") auto

declare skipToCharH.simps [simp del]

text \<open>
  \<open>handleHeader\<close> receives one header line without its CR LF. It returns the parser, the
  events of the call and the exception, if \<open>antoi\<close> raised one (then \<open>onHeader\<close> is not
  reached).
\<close>

definition handleHeader ::
  "antoi_fn \<Rightarrow> HttpResponseParser \<Rightarrow> string \<Rightarrow> HttpResponseParser \<times> event list \<times> exn option" where
  "handleHeader antoi p data =
     (case matchString data 0 ''Content-Length'' of
        (True, ptr1) \<Rightarrow>
          (let ptr2 = skipChar data ptr1 (CHR '' '');
               ptr3 = snd (skipToCharH data ptr2 (CHR '':'')) + 1;
               ptr4 = skipChar data ptr3 (CHR '' '')
           in case antoi (drop ptr4 data) of
                Inl e \<Rightarrow> (p, [], Some e)
              | Inr n \<Rightarrow> (p\<lparr>remainingBody := to_uint64 n\<rparr>, [OnHeader data], None))
      | (False, _) \<Rightarrow> (p, [OnHeader data], None))"

subsection \<open>feed\<close>

text \<open>
  One pass through the body of the \<open>while (true)\<close> loop of \<open>feed\<close> either returns from
  \<open>feed\<close> (\<open>Return\<close>: the parser as it is left, the events of the pass, the exception if
  one was thrown) or goes round again (\<open>Continue\<close>: the new \<open>ptr\<close>, the parser, the events
  of the pass). \<open>data\<close> is the local pointer of \<open>feed\<close>: the bytes it points to at entry,
  which no branch reads again after assigning \<open>buffer_\<close>.
\<close>

datatype step =
    Return HttpResponseParser "event list" "exn option"
  | Continue nat HttpResponseParser "event list"

text \<open>The branch \<open>state == 0\<close>: the status line.\<close>

definition statusLine :: "antoi_fn \<Rightarrow> string \<Rightarrow> bool \<Rightarrow> nat \<Rightarrow> HttpResponseParser \<Rightarrow> step" where
  "statusLine antoi data fromBuffer ptr p =
     (if length data - ptr < 16 then
        Return (if \<not> fromBuffer then p\<lparr>buffer := drop ptr data\<rparr> else p) [] None
      else if take 5 (drop ptr data) \<noteq> ''HTTP/'' then Return p [] (Some VersionMustStartWithHTTP)
      else
        case skipToChar data (ptr + 5) (CHR '' '') True of
          Inl e \<Rightarrow> Return p [] (Some e)
        | Inr (False, _) \<Rightarrow> Return p [] (Some VersionTooLong)
        | Inr (True, versionEnd) \<Rightarrow>
           (let codeStart = versionEnd + 1 in
            case skipToChar data codeStart (CHR '' '') True of
              Inl e \<Rightarrow> Return p [] (Some e)
            | Inr (False, _) \<Rightarrow> Return p [] (Some CodeTooLong)
            | Inr (True, codeEnd) \<Rightarrow>
               (case antoi (take (codeEnd - codeStart) (drop codeStart data)) of
                  Inl e \<Rightarrow> Return p [] (Some e)
                | Inr code \<Rightarrow>
                   (case skipToChar data codeEnd CR False of
                      Inl e \<Rightarrow> Return p [] (Some e)
                    | Inr (False, ptr1) \<Rightarrow>
                        Return (if \<not> fromBuffer then p\<lparr>buffer := drop ptr1 data\<rparr> else p) [] None
                    | Inr (True, ptr1) \<Rightarrow>
                        if ptr1 + 1 = length data then Return p [] None
                        else if data ! (ptr1 + 1) \<noteq> LF then Return p [] (Some ExpectedNewline)
                        else
                          let evs = [OnResponseStart (take versionEnd data) code];
                              p1 = p\<lparr>state := 1\<rparr>
                          in if ptr1 + 2 = length data then Return (p1\<lparr>buffer := []\<rparr>) evs None
                             else Continue (ptr1 + 2) p1 evs))))"

lemma skipToChar_bounds:
  "skipToChar data ptr c t = Inr (b, ptr') \<Longrightarrow> ptr \<le> ptr' \<and> (b \<longrightarrow> ptr' < length data)"
proof (induction data ptr c t rule: skipToChar.induct)
  case (1 data ptr c throwOnEol)
  show ?case
  proof (cases "ptr < length data")
    case False
    with "1.prems" show ?thesis by (simp add: skipToChar.simps)
  next
    case True
    show ?thesis
    proof (cases "data ! ptr = c")
      case True
      with \<open>ptr < length data\<close> "1.prems" show ?thesis by (simp add: skipToChar.simps)
    next
      case False
      with True "1.prems" have
        ne: "\<not> (throwOnEol \<and> (data ! ptr = CR \<or> data ! ptr = LF))" and
        rec: "skipToChar data (ptr + 1) c throwOnEol = Inr (b, ptr')"
        by (auto simp: skipToChar.simps [of data ptr] split: if_splits)
      from "1.IH" [OF True False ne rec] show ?thesis by simp
    qed
  qed
qed

text \<open>
  The inner loop \<open>while (data[ptr] != '\r')\<close> of the branch \<open>state == 1\<close>, one header
  line per round, followed by the code after the loop (the empty line). The loop condition
  is only ever evaluated with \<open>ptr < dataSize\<close>: \<open>feed\<close> checks it before the branch and
  the loop body before going round.
\<close>

definition saveHeader :: "string \<Rightarrow> bool \<Rightarrow> nat \<Rightarrow> HttpResponseParser \<Rightarrow> HttpResponseParser" where
  "saveHeader data fromBuffer headerPtr p =
     (if headerPtr > 0 \<or> \<not> fromBuffer then p\<lparr>buffer := drop headerPtr data\<rparr> else p)"

text \<open>The code after the loop: the empty line that ends the header section.\<close>

definition emptyLine :: "string \<Rightarrow> bool \<Rightarrow> nat \<Rightarrow> HttpResponseParser \<Rightarrow> event list \<Rightarrow> step" where
  "emptyLine data fromBuffer ptr p evs =
     (if ptr + 1 = length data then Return (p\<lparr>buffer := drop ptr data\<rparr>) evs None
      else if data ! (ptr + 1) \<noteq> LF then Return p evs (Some ExpectedNewline)
      else
        (let p1 = (if remainingBody p = 0 then p\<lparr>state := 0\<rparr> else p\<lparr>state := 2\<rparr>);
             evs1 = (if remainingBody p = 0 then evs @ [OnDone] else evs)
         in if length data = 0
            then Return (if fromBuffer then p1\<lparr>buffer := []\<rparr> else p1) evs1 None
            else Continue (ptr + 2) p1 evs1))"

function headers ::
  "antoi_fn \<Rightarrow> string \<Rightarrow> bool \<Rightarrow> nat \<Rightarrow> HttpResponseParser \<Rightarrow> event list \<Rightarrow> step" where
  "headers antoi data fromBuffer ptr p evs =
     (if ptr < length data \<and> data ! ptr \<noteq> CR then
        (let headerPtr = ptr in
         case skipToChar data ptr (CHR '':'') True of
           Inl e \<Rightarrow> Return p evs (Some e)
         | Inr (False, _) \<Rightarrow> Return (saveHeader data fromBuffer headerPtr p) evs None
         | Inr (True, ptr1) \<Rightarrow>
            (case skipToChar data ptr1 CR False of
               Inl e \<Rightarrow> Return p evs (Some e)
             | Inr (False, _) \<Rightarrow> Return (saveHeader data fromBuffer headerPtr p) evs None
             | Inr (True, ptr2) \<Rightarrow>
                 if ptr2 + 1 = length data
                 then Return (saveHeader data fromBuffer headerPtr p) evs None
                 else if data ! (ptr2 + 1) \<noteq> LF then Return p evs (Some ExpectedNewline)
                 else
                   (case handleHeader antoi p (take (ptr2 - headerPtr) (drop headerPtr data)) of
                      (p1, hevs, Some e) \<Rightarrow> Return p1 (evs @ hevs) (Some e)
                    | (p1, hevs, None) \<Rightarrow>
                        if ptr2 + 2 = length data
                        then Return (if fromBuffer then p1\<lparr>buffer := []\<rparr> else p1) (evs @ hevs) None
                        else headers antoi data fromBuffer (ptr2 + 2) p1 (evs @ hevs))))
      else emptyLine data fromBuffer ptr p evs)"
  by pat_completeness auto
termination
proof (relation "measure (\<lambda>(antoi, data, fromBuffer, ptr, p, evs). length data - ptr)", goal_cases)
  case 1
  show ?case by simp
next
  case (2 antoi data fromBuffer ptr p evs headerPtr x2 b1 ptr1 x2a b2 ptr2)
  from 2 have "skipToChar data ptr (CHR '':'') True = Inr (b1, ptr1)" by simp
  then have a: "ptr \<le> ptr1" using skipToChar_bounds by blast
  from 2 have "skipToChar data ptr1 CR False = Inr (b2, ptr2)" by simp
  then have b: "ptr1 \<le> ptr2" using skipToChar_bounds by blast
  from 2 have "ptr < length data" by simp
  with a b show ?case by simp
qed

declare headers.simps [simp del]

text \<open>The branch \<open>state == 2\<close>: the body.\<close>

definition body :: "string \<Rightarrow> nat \<Rightarrow> HttpResponseParser \<Rightarrow> step" where
  "body data ptr p =
     (let chunkSize = min (length data - ptr) (remainingBody p);
          evs = [OnData (take chunkSize (drop ptr data))];
          p1 = p\<lparr>remainingBody := remainingBody p - chunkSize\<rparr>
      in if remainingBody p1 = 0 then Continue (ptr + chunkSize) (p1\<lparr>state := 0\<rparr>) (evs @ [OnDone])
         else Continue (ptr + chunkSize) p1 evs)"

definition feedStep :: "antoi_fn \<Rightarrow> string \<Rightarrow> bool \<Rightarrow> nat \<Rightarrow> HttpResponseParser \<Rightarrow> step" where
  "feedStep antoi data fromBuffer ptr p =
     (if state p = 0 then statusLine antoi data fromBuffer ptr p
      else if state p = 1 then headers antoi data fromBuffer ptr p []
      else if state p = 2 then body data ptr p
      else Return p [] (Some Spins))"

text \<open>
  The loop \<open>while (true)\<close> of \<open>feed\<close>. A pass that goes round either moved \<open>ptr\<close> forward,
  never beyond \<open>dataSize\<close>, or left the body stage with nothing left to read of it,
  which is why the loop ends (and why its test \<open>ptr == dataSize\<close> can be written
  \<open>ptr \<ge> dataSize\<close>).
\<close>

lemma statusLine_Continue:
  "statusLine antoi data fromBuffer ptr p = Continue ptr' p' evs \<Longrightarrow> ptr < ptr' \<and> ptr' \<le> length data"
  unfolding statusLine_def
  by (auto simp: Let_def split: if_splits sum.splits prod.splits bool.splits
      dest!: skipToChar_bounds)

lemma headers_Continue:
  "headers antoi data fromBuffer ptr p evs = Continue ptr' p' evs' \<Longrightarrow> ptr < length data
   \<Longrightarrow> ptr < ptr' \<and> ptr' \<le> length data"
proof (induction "length data - ptr" arbitrary: ptr p evs rule: less_induct)
  case less
  show ?case
  proof (cases "ptr < length data \<and> data ! ptr \<noteq> CR")
    case False
    with less.prems show ?thesis
      by (auto simp: headers.simps [of antoi data fromBuffer ptr] emptyLine_def Let_def
          split: if_splits)
  next
    case True
    from less.prems(1) True obtain ptr1 ptr2 p1 hevs where
      s1: "skipToChar data ptr (CHR '':'') True = Inr (True, ptr1)" and
      s2: "skipToChar data ptr1 CR False = Inr (True, ptr2)" and
      n1: "ptr2 + 1 \<noteq> length data" and
      n3: "ptr2 + 2 \<noteq> length data" and
      rec: "headers antoi data fromBuffer (ptr2 + 2) p1 (evs @ hevs) = Continue ptr' p' evs'"
      by (auto simp: headers.simps [of antoi data fromBuffer ptr] Let_def
          split: if_splits sum.splits prod.splits bool.splits option.splits)
    from s1 have a: "ptr \<le> ptr1" using skipToChar_bounds by blast
    from s2 have b: "ptr1 \<le> ptr2 \<and> ptr2 < length data" using skipToChar_bounds by blast
    with n1 n3 have c: "ptr2 + 2 < length data" by simp
    from a b c have d: "length data - (ptr2 + 2) < length data - ptr" by simp
    from less.hyps [OF d rec c] a b show ?thesis by simp
  qed
qed

lemma body_Continue:
  "body data ptr p = Continue ptr' p' evs \<Longrightarrow> ptr < length data \<Longrightarrow>
   ptr' \<le> length data \<and> (ptr < ptr' \<or> (ptr' = ptr \<and> state p' = 0))"
  unfolding body_def by (auto simp: Let_def min_def split: if_splits)

lemma feedStep_Continue:
  assumes "feedStep antoi data fromBuffer ptr p = Continue ptr' p' evs" and "ptr < length data"
  shows "ptr' \<le> length data \<and> (ptr < ptr' \<or> (ptr' = ptr \<and> state p = 2 \<and> state p' = 0))"
proof -
  consider "state p = 0" | "state p = 1" | "state p = 2" | "state p > 2" by linarith
  then show ?thesis
  proof cases
    case 1
    with assms statusLine_Continue [of antoi data fromBuffer ptr p ptr' p' evs] show ?thesis
      by (simp add: feedStep_def)
  next
    case 2
    with assms headers_Continue [of antoi data fromBuffer ptr p "[]" ptr' p' evs] show ?thesis
      by (simp add: feedStep_def)
  next
    case 3
    with assms body_Continue [of data ptr p ptr' p' evs] show ?thesis
      by (auto simp: feedStep_def)
  next
    case 4
    with assms show ?thesis by (simp add: feedStep_def)
  qed
qed

function feedLoop ::
  "antoi_fn \<Rightarrow> string \<Rightarrow> bool \<Rightarrow> nat \<Rightarrow> HttpResponseParser \<Rightarrow> event list
   \<Rightarrow> HttpResponseParser \<times> event list \<times> exn option" where
  "feedLoop antoi data fromBuffer ptr p evs =
     (if ptr \<ge> length data then ((if fromBuffer then p\<lparr>buffer := []\<rparr> else p), evs, None)
      else
        case feedStep antoi data fromBuffer ptr p of
          Return p1 evs1 e \<Rightarrow> (p1, evs @ evs1, e)
        | Continue ptr1 p1 evs1 \<Rightarrow> feedLoop antoi data fromBuffer ptr1 p1 (evs @ evs1))"
  by pat_completeness auto
termination
proof (relation "measures [\<lambda>(antoi, data, fromBuffer, ptr, p, evs). length data - ptr,
                           \<lambda>(antoi, data, fromBuffer, ptr, p, evs). if state p = 2 then 1 else 0]",
       goal_cases)
  case 1
  show ?case by simp
next
  case (2 antoi data fromBuffer ptr p evs ptr1 p1 evs1)
  then have "feedStep antoi data fromBuffer ptr p = Continue ptr1 p1 evs1" and "ptr < length data"
    by simp_all
  from feedStep_Continue [OF this] show ?case by auto
qed

declare feedLoop.simps [simp del]

text \<open>
  \<open>feed(bufferData, bufferSize)\<close>: with bytes carried over, the new bytes are appended to
  \<open>buffer_\<close> and parsing runs over the whole of it; otherwise it runs over the new bytes.
  The result is the parser as the call leaves it, the callbacks it made, in order, and the
  exception if it threw.
\<close>

definition feed ::
  "antoi_fn \<Rightarrow> HttpResponseParser \<Rightarrow> string \<Rightarrow> HttpResponseParser \<times> event list \<times> exn option" where
  "feed antoi p bufferData =
     (if length (buffer p) > 0
      then (let p1 = p\<lparr>buffer := buffer p @ bufferData\<rparr>
            in feedLoop antoi (buffer p1) True 0 p1 [])
      else feedLoop antoi bufferData False 0 p [])"

text \<open>
  A sequence of \<open>feed\<close> calls on one parser, as \<open>HttpConnection::onReceivedData\<close> makes
  them. An exception leaves \<open>feed\<close> and ends the sequence (\<open>HttpConnection::onException\<close>
  aborts); the callbacks made until then stay made.
\<close>

fun feedAll ::
  "antoi_fn \<Rightarrow> HttpResponseParser \<Rightarrow> string list \<Rightarrow> HttpResponseParser \<times> event list \<times> exn option" where
  "feedAll antoi p [] = (p, [], None)"
| "feedAll antoi p (c # cs) =
     (case feed antoi p c of
        (p1, evs1, Some e) \<Rightarrow> (p1, evs1, Some e)
      | (p1, evs1, None) \<Rightarrow>
          (case feedAll antoi p1 cs of (p2, evs2, r) \<Rightarrow> (p2, evs1 @ evs2, r)))"

text \<open>
  Modelled from the spec: \<open>ML::antoi\<close>, which the sources at hand do not hold. The spec
  has the status code "parsed as ASCII decimal"; \<open>antoiDec\<close> reads a run of decimal
  digits and fails on any other byte. It instantiates the parameter where a concrete run
  of the parser is evaluated, on inputs whose numbers are plain digit runs.
\<close>

definition digitVal :: "char \<Rightarrow> nat option" where
  "digitVal c = (let n = (of_char c :: nat) in if 48 \<le> n \<and> n \<le> 57 then Some (n - 48) else None)"

fun antoiAcc :: "int \<Rightarrow> string \<Rightarrow> exn + int" where
  "antoiAcc acc [] = Inr acc"
| "antoiAcc acc (c # cs) =
     (case digitVal c of None \<Rightarrow> Inl AntoiFailed | Some d \<Rightarrow> antoiAcc (acc * 10 + int d) cs)"

definition antoiDec :: antoi_fn where
  "antoiDec s = antoiAcc 0 s"

subsection \<open>Vocabulary for statements about responses\<close>









definition dataBytes :: "event list \<Rightarrow> string" where
  "dataBytes evs = concat (map (\<lambda>e. case e of OnData d \<Rightarrow> d | _ \<Rightarrow> []) evs)"


section \<open>The REST request router (rest\_request\_router.h, rest\_request\_router.cc)\<close>

subsection \<open>Collaborators\<close>

text \<open>
  A \<open>std::set<std::string>\<close> is the list of its elements in increasing order, the order
  in which a range-for visits them; strings compare bytewise, a proper prefix first.
\<close>

type_synonym string_set = "string list"

definition set_insert :: "string \<Rightarrow> string_set \<Rightarrow> string_set" where
  "set_insert x xs = (if x \<in> set xs then xs else insort x xs)"

definition set_of :: "string list \<Rightarrow> string_set" where
  "set_of xs = fold set_insert xs []"

definition set_insert_range :: "string_set \<Rightarrow> string_set \<Rightarrow> string_set" where
  "set_insert_range src dst = fold set_insert src dst"

text \<open>
  \<open>std::string::find(str)\<close> from position 0: the lowest position at which \<open>str\<close> occurs,
  \<open>None\<close> for \<open>npos\<close>.
\<close>

fun str_find :: "string \<Rightarrow> string \<Rightarrow> nat option" where
  "str_find [] pat = (if pat = [] then Some 0 else None)"
| "str_find (x # xs) pat =
     (if prefix pat (x # xs) then Some 0 else map_option Suc (str_find xs pat))"

text \<open>
  \<open>boost::regex\<close> is a library type. A compiled expression is taken as what the router
  uses of it: \<open>mark_count()\<close> and the result of \<open>regex_search\<close> on a subject, which on
  success holds the flag \<open>prefix().matched\<close> (the match does not start the subject) and
  the sub-matches \<open>results[0]\<close>, ..., \<open>results[size() - 1]\<close> as strings.
\<close>

record match_results =
  prefix_matched :: bool
  subs :: "string list"

record regex =
  mark_count :: nat
  regex_search :: "string \<Rightarrow> match_results option"

text \<open>
  What the library promises of a search: \<open>results.size()\<close> is \<open>mark_count() + 1\<close>, and a
  match with \<open>prefix().matched\<close> false begins the subject.
\<close>

definition regexContract :: "regex \<Rightarrow> bool" where
  "regexContract rex \<longleftrightarrow>
     (\<forall>s m. regex_search rex s = Some m \<longrightarrow>
        length (subs m) = mark_count rex + 1 \<and> (\<not> prefix_matched m \<longrightarrow> prefix (hd (subs m)) s))"

text \<open>
  Of \<open>RestRequest\<close> (rest\_request.h) the router reads the verb, the resource, the query
  parameters and \<open>header.tryGetHeader\<close>, which is kept as the function it is.
\<close>

record RestRequest =
  verb :: string
  resource :: string
  params :: "(string \<times> string) list"
  tryGetHeader :: "string \<Rightarrow> string"

text \<open>
  Modelled from the spec: \<open>RestConnection\<close> (rest\_connection.h), an abstract class of
  which the sources at hand hold no implementation. The spec has a handler emit a
  response through it and \<open>responseSent()\<close> as the authoritative check that one was
  emitted; the connection is the list of what was sent on it. The JSON help document of
  an OPTIONS response is a single value: its text is not modelled.
\<close>

datatype payload = Text string | HelpDocument

datatype sent =
    SendHttpResponse int payload string "(string \<times> string) list"
  | SendErrorResponse int string
  | SendResponse int string string

type_synonym RestConnection = "sent list"

definition responseSent :: "RestConnection \<Rightarrow> bool" where
  "responseSent connection \<longleftrightarrow> connection \<noteq> []"

subsection \<open>PathSpec and RequestFilter\<close>

datatype PathSpecType = NONE | STRING | REGEX

record PathSpec =
  type :: PathSpecType
  path :: string
  rex :: regex

datatype rexn = StdException string | UnknownException

definition numCapturedElements :: "PathSpec \<Rightarrow> nat" where
  "numCapturedElements p =
     (case type p of NONE \<Rightarrow> 0 | STRING \<Rightarrow> 1 | REGEX \<Rightarrow> mark_count (rex p) + 1)"

datatype Location = QUERY | HEADER

record RequestParamFilter =
  location :: Location
  param :: string
  paramValue :: string

record RequestFilter =
  verbs :: string_set
  filters :: "RequestParamFilter list"

text \<open>
  \<open>std::string::find\<close> of one character, and the two substring constructors
  \<open>string(v, 0, i)\<close> and \<open>string(v, i + 1)\<close> used by \<open>parseVerbs\<close>.
\<close>

definition find_char :: "string \<Rightarrow> char \<Rightarrow> nat option" where
  "find_char s c = (if c \<in> set s then Some (length (takeWhile (\<lambda>x. x \<noteq> c) s)) else None)"

text \<open>
  One round of the loop of \<open>parseVerbs\<close>, on the local \<open>newVerbs\<close> and the member
  \<open>filters\<close>.
\<close>

definition parseVerb ::
  "string \<Rightarrow> string_set \<times> RequestParamFilter list \<Rightarrow> string_set \<times> RequestParamFilter list" where
  "parseVerb v acc =
     (case acc of (newVerbs, fs) \<Rightarrow>
        (case find_char v (CHR ''='') of
           None \<Rightarrow> (set_insert v newVerbs, fs)
         | Some i \<Rightarrow>
             (let key = take i v; value = drop (i + 1) v in
              if str_find key ''header:'' = Some 0
              then (newVerbs, fs @ [\<lparr>location = HEADER, param = drop 7 key, paramValue = value\<rparr>])
              else (newVerbs, fs @ [\<lparr>location = QUERY, param = key, paramValue = value\<rparr>]))))"

text \<open>
  \<open>parseVerbs\<close>: the loop fills \<open>newVerbs\<close> and \<open>filters\<close>; the last statement is
  \<open>newVerbs = verbs\<close>, which overwrites the local and leaves the member \<open>verbs\<close> as it
  was.
\<close>

definition parseVerbs :: "RequestFilter \<Rightarrow> RequestFilter" where
  "parseVerbs f =
     (case fold parseVerb (verbs f) ([], filters f) of
        (newVerbs, fs) \<Rightarrow> (let newVerbs1 = verbs f in f\<lparr>filters := fs\<rparr>))"

text \<open>The constructor \<open>RequestFilter(std::set<std::string> verbs)\<close>.\<close>

definition mkRequestFilter :: "string list \<Rightarrow> RequestFilter" where
  "mkRequestFilter vs = parseVerbs \<lparr>verbs = set_of vs, filters = []\<rparr>"

subsection \<open>RestRequestParsingContext\<close>

text \<open>
  An \<open>ObjectEntry\<close> is the pointer and the name of the type; the deleter is left out.
  The member \<open>remaining\<close> of the saved \<open>State\<close> is \<open>s_remaining\<close> here, since the
  context has a member of that name.
\<close>

type_synonym ObjectEntry = "nat \<times> string"

record RestRequestParsingContext =
  resources :: "string list"
  objects :: "ObjectEntry list"
  remaining :: string

definition newContext :: "RestRequest \<Rightarrow> RestRequestParsingContext" where
  "newContext request = \<lparr>resources = [], objects = [], remaining = resource request\<rparr>"

record State =
  s_remaining :: string
  resourcesLength :: nat
  objectsLength :: nat

definition saveState :: "RestRequestParsingContext \<Rightarrow> State" where
  "saveState c = \<lparr>s_remaining = remaining c, resourcesLength = length (resources c),
                  objectsLength = length (objects c)\<rparr>"

text \<open>
  \<open>restoreState\<close>: \<open>None\<close> when one of the two \<open>ExcAssertGreaterEqual\<close> fails. It runs in
  the destructor of \<open>StateGuard\<close>, so a failed assertion ends the program.
\<close>

definition restoreState :: "RestRequestParsingContext \<Rightarrow> State \<Rightarrow> RestRequestParsingContext option" where
  "restoreState c st =
     (if length (resources c) < resourcesLength st then None
      else if length (objects c) < objectsLength st then None
      else Some (c\<lparr>remaining := s_remaining st,
                  resources := take (resourcesLength st) (resources c),
                  objects := take (objectsLength st) (objects c)\<rparr>))"

subsection \<open>Routes\<close>

datatype MatchResult = MR_NO | MR_YES | MR_ERROR | MR_ASYNC

text \<open>
  How a call ends: it returns, it throws, or the program is ended in a destructor.
\<close>

datatype 'a outcome = Returned 'a | Threw rexn | Terminated

type_synonym OnProcessRequest =
  "RestConnection \<Rightarrow> RestRequest \<Rightarrow> RestRequestParsingContext
   \<Rightarrow> MatchResult outcome \<times> RestConnection \<times> RestRequestParsingContext"

type_synonym ExtractObject =
  "RestConnection \<Rightarrow> RestRequest \<Rightarrow> RestRequestParsingContext
   \<Rightarrow> unit outcome \<times> RestConnection \<times> RestRequestParsingContext"

text \<open>
  A handler or an extractor may change the connection and the context it is given by
  reference, so it returns both with its outcome. A router is held through a
  \<open>shared_ptr\<close> and never changed while requests are processed; \<open>argHelp\<close>, which only
  the JSON of \<open>getHelp\<close> reads, is left out.
\<close>

datatype RestRequestRouter =
  Router (rootHandler: "OnProcessRequest option") (description: string) (terminal: bool)
         (subRoutes: "Route list")
and Route =
  MkRoute (rpath: PathSpec) (rfilter: RequestFilter) (router: RestRequestRouter)
          (extractObject: "ExtractObject option")

text \<open>\<open>Route::matchPath\<close>: the exception, or the flag and the context as it leaves it.\<close>

definition matchPath :: "PathSpec \<Rightarrow> RestRequestParsingContext \<Rightarrow> rexn + (bool \<times> RestRequestParsingContext)" where
  "matchPath p context =
     (case type p of
        STRING \<Rightarrow>
          (if str_find (remaining context) (path p) = Some 0
           then Inr (True, context\<lparr>resources := resources context @ [path p],
                                   remaining := drop (length (path p)) (remaining context)\<rparr>)
           else Inr (False, context))
      | REGEX \<Rightarrow>
          (case regex_search (rex p) (remaining context) of
             None \<Rightarrow> Inr (False, context)
           | Some results \<Rightarrow>
               if prefix_matched results then Inr (False, context)
               else Inr (True, context\<lparr>resources := resources context @ subs results,
                                       remaining := drop (case subs results of [] \<Rightarrow> 0 | full # _ \<Rightarrow> length full)
                                                         (remaining context)\<rparr>))
      | NONE \<Rightarrow> Inl (StdException ''unknown rest request type''))"

text \<open>The test of one parameter filter in \<open>Route::process\<close>.\<close>

definition filterMatched :: "RestRequest \<Rightarrow> RequestParamFilter \<Rightarrow> bool" where
  "filterMatched request f =
     (case location f of
        QUERY \<Rightarrow> list_ex (\<lambda>p. fst p = param f \<and> snd p = paramValue f) (params request)
      | HEADER \<Rightarrow> tryGetHeader request (param f) = paramValue f)"

definition getVerbsStr :: "string_set \<Rightarrow> string" where
  "getVerbsStr vs = fold (\<lambda>v verbsStr. (if verbsStr \<noteq> [] then verbsStr @ '','' else verbsStr) @ v) vs []"

text \<open>
  The destructor of a \<open>StateGuard\<close> at the end of a scope that was left with the given
  outcome, connection and context.
\<close>

definition guardExit ::
  "State \<Rightarrow> 'a outcome \<times> 'c \<times> RestRequestParsingContext \<Rightarrow> 'a outcome \<times> 'c \<times> RestRequestParsingContext" where
  "guardExit st res =
     (case res of (out, connection, context) \<Rightarrow>
        (case out of
           Terminated \<Rightarrow> (Terminated, connection, context)
         | _ \<Rightarrow>
            (case restoreState context st of
               None \<Rightarrow> (Terminated, connection, context)
             | Some context1 \<Rightarrow> (out, connection, context1))))"

text \<open>
  Of the JSON that \<open>getHelp\<close> builds only the exception matters here: \<open>PathSpec::getHelp\<close>
  throws on a path of type \<open>NONE\<close>.
\<close>

fun getHelp :: "RestRequestRouter \<Rightarrow> rexn option"
  and getHelpRoutes :: "Route list \<Rightarrow> rexn option" where
  "getHelp (Router rh d t srs) = getHelpRoutes srs"
| "getHelpRoutes [] = None"
| "getHelpRoutes (MkRoute p f r eo # srs) =
     (case type p of
        NONE \<Rightarrow> Some (StdException ''unknown path parameter'')
      | _ \<Rightarrow> (case getHelp r of Some e \<Rightarrow> Some e | None \<Rightarrow> getHelpRoutes srs))"

text \<open>
  \<open>RestRequestRouter::options\<close> and \<open>Route::options\<close>: the set \<open>verbsAccepted\<close> is the
  second component of the result.
\<close>

fun options ::
    "RestRequestRouter \<Rightarrow> RestRequest \<Rightarrow> RestRequestParsingContext \<Rightarrow> string_set
     \<Rightarrow> unit outcome \<times> string_set \<times> RestRequestParsingContext"
  and optionsRoutes ::
    "Route list \<Rightarrow> RestRequest \<Rightarrow> RestRequestParsingContext \<Rightarrow> string_set
     \<Rightarrow> unit outcome \<times> string_set \<times> RestRequestParsingContext"
  and optionsRoute ::
    "Route \<Rightarrow> RestRequest \<Rightarrow> RestRequestParsingContext \<Rightarrow> string_set
     \<Rightarrow> unit outcome \<times> string_set \<times> RestRequestParsingContext" where
  "options (Router rh d t srs) request context verbsAccepted =
     optionsRoutes srs request context verbsAccepted"
| "optionsRoutes [] request context verbsAccepted = (Returned (), verbsAccepted, context)"
| "optionsRoutes (sr # srs) request context verbsAccepted =
     (case optionsRoute sr request context verbsAccepted of
        (Returned u, verbs1, context1) \<Rightarrow> optionsRoutes srs request context1 verbs1
      | res \<Rightarrow> res)"
| "optionsRoute (MkRoute p f r eo) request context verbsAccepted =
     guardExit (saveState context)
       (case matchPath p context of
          Inl e \<Rightarrow> (Threw e, verbsAccepted, context)
        | Inr (False, context1) \<Rightarrow> (Returned (), verbsAccepted, context1)
        | Inr (True, context1) \<Rightarrow>
            if remaining context1 = [] then
              (let verbs1 = set_insert_range (verbs f) verbsAccepted in
               case getHelp r of
                 Some e \<Rightarrow> (Threw e, verbs1, context1)
               | None \<Rightarrow> options r request context1 verbs1)
            else options r request context1 verbsAccepted)"

text \<open>
  \<open>RestRequestRouter::processRequest\<close>, its loop over the sub-routes with the two
  \<open>catch\<close> clauses, and \<open>Route::process\<close>.
\<close>

fun processRequest ::
    "RestRequestRouter \<Rightarrow> RestConnection \<Rightarrow> RestRequest \<Rightarrow> RestRequestParsingContext
     \<Rightarrow> MatchResult outcome \<times> RestConnection \<times> RestRequestParsingContext"
  and processRoutes ::
    "Route list \<Rightarrow> RestConnection \<Rightarrow> RestRequest \<Rightarrow> RestRequestParsingContext
     \<Rightarrow> MatchResult outcome \<times> RestConnection \<times> RestRequestParsingContext"
  and process ::
    "Route \<Rightarrow> RestRequest \<Rightarrow> RestRequestParsingContext \<Rightarrow> RestConnection
     \<Rightarrow> MatchResult outcome \<times> RestConnection \<times> RestRequestParsingContext" where
  "processRequest (Router rh d t srs) connection request context =
     (if verb request = ''OPTIONS'' then
        (case options (Router rh d t srs) request context [] of
           (Returned u, vs, context1) \<Rightarrow>
             (Returned MR_YES,
              connection @ [if vs = [] then SendHttpResponse 400 (Text []) [] [(''Allow'', getVerbsStr vs)]
                            else SendHttpResponse 200 HelpDocument ''application/json''
                                   [(''Allow'', getVerbsStr vs)]],
              context1)
         | (Threw e, vs, context1) \<Rightarrow> (Threw e, connection, context1)
         | (Terminated, vs, context1) \<Rightarrow> (Terminated, connection, context1))
      else
        case rh of
          Some handler \<Rightarrow>
            if \<not> t \<or> remaining context = [] then handler connection request context
            else processRoutes srs connection request context
        | None \<Rightarrow> processRoutes srs connection request context)"
| "processRoutes [] connection request context = (Returned MR_NO, connection, context)"
| "processRoutes (sr # srs) connection request context =
     (case process sr request context connection of
        (Returned mr, connection1, context1) \<Rightarrow>
          if mr = MR_YES \<or> mr = MR_ASYNC \<or> mr = MR_ERROR then (Returned mr, connection1, context1)
          else processRoutes srs connection1 request context1
      | (Threw (StdException what), connection1, context1) \<Rightarrow>
          (Returned MR_YES, connection1 @ [SendErrorResponse 500 (''threw exception: '' @ what)], context1)
      | (Threw UnknownException, connection1, context1) \<Rightarrow>
          (Returned MR_YES, connection1 @ [SendErrorResponse 500 ''unknown exception''], context1)
      | (Terminated, connection1, context1) \<Rightarrow> (Terminated, connection1, context1))"
| "process (MkRoute p f r eo) request context connection =
     (if verbs f \<noteq> [] \<and> verb request \<notin> set (verbs f) then (Returned MR_NO, connection, context)
      else if \<not> list_all (filterMatched request) (filters f) then (Returned MR_NO, connection, context)
      else
        guardExit (saveState context)
          (case matchPath p context of
             Inl e \<Rightarrow> (Threw e, connection, context)
           | Inr (False, context1) \<Rightarrow> (Returned MR_NO, connection, context1)
           | Inr (True, context1) \<Rightarrow>
               (case (case eo of None \<Rightarrow> (Returned (), connection, context1)
                               | Some extract \<Rightarrow> extract connection request context1) of
                  (Returned u, connection2, context2) \<Rightarrow>
                    if responseSent connection2 then (Returned MR_YES, connection2, context2)
                    else processRequest r connection2 request context2
                | (Threw e, connection2, context2) \<Rightarrow> (Threw e, connection2, context2)
                | (Terminated, connection2, context2) \<Rightarrow> (Terminated, connection2, context2))))"

text \<open>\<open>RestRequestRouter::handleRequest\<close>: how the call ends and what the connection holds.\<close>

definition handleRequest ::
  "RestRequestRouter \<Rightarrow> RestConnection \<Rightarrow> RestRequest \<Rightarrow> unit outcome \<times> RestConnection" where
  "handleRequest r connection request =
     (case processRequest r connection request (newContext request) of
        (Returned res, connection1, context1) \<Rightarrow>
          if res = MR_NO
          then (Returned (),
                connection1 @ [SendErrorResponse 404
                   (''unknown resource '' @ verb request @ '' '' @ resource request)])
          else (Returned (), connection1)
      | (Threw e, connection1, context1) \<Rightarrow> (Threw e, connection1)
      | (Terminated, connection1, context1) \<Rightarrow> (Terminated, connection1))"

subsection \<open>Routers for the closed theorems\<close>

text \<open>
  A literal path, the expression \<open>/items/([0-9]+)\<close> compiled by hand (the search takes
  the leftmost match, the longest there, and notes whether it skipped any byte to get to
  it), a handler that answers with the resources and the remaining path it sees, and
  small routers built from them as \<open>addRoute\<close> builds them.
\<close>

definition noRegex :: regex where "noRegex = \<lparr>mark_count = 0, regex_search = (\<lambda>s. None)\<rparr>"

definition lit :: "string \<Rightarrow> PathSpec" where "lit s = \<lparr>type = STRING, path = s, rex = noRegex\<rparr>"

fun itemsSearch :: "bool \<Rightarrow> string \<Rightarrow> match_results option" where
  "itemsSearch skipped [] = None"
| "itemsSearch skipped (x # xs) =
     (let digits = takeWhile (\<lambda>c. c \<in> set ''0123456789'') (drop 7 (x # xs)) in
      if take 7 (x # xs) = ''/items/'' \<and> digits \<noteq> []
      then Some \<lparr>prefix_matched = skipped, subs = [''/items/'' @ digits, digits]\<rparr>
      else itemsSearch True xs)"

definition itemsRx :: regex where
  "itemsRx = \<lparr>mark_count = 1, regex_search = itemsSearch False\<rparr>"

definition echo :: OnProcessRequest where
  "echo = (\<lambda>connection request context.
      (Returned MR_YES, connection @ [SendResponse 200 (concat (resources context) @ ''|'' @ remaining context) ''text/plain''], context))"

definition itemsRouter :: RestRequestRouter where "itemsRouter = Router (Some echo) ''items'' True []"

definition exampleRequest :: "string \<Rightarrow> string \<Rightarrow> RestRequest" where
  "exampleRequest v r = \<lparr>verb = v, resource = r, params = [(''a'', ''b'')], tryGetHeader = (\<lambda>k. [])\<rparr>"

definition xRouter :: RestRequestRouter where
  "xRouter = Router None ''x'' False
     [MkRoute (lit ''/x'') (mkRequestFilter [''GET'']) itemsRouter None,
      MkRoute (lit ''/x'') (mkRequestFilter [''POST'']) itemsRouter None]"

subsection \<open>Vocabulary for statements about routers\<close>

text \<open>The successive \<open>matchPath\<close> calls along a chain of routes.\<close>

fun matchPaths :: "PathSpec list \<Rightarrow> RestRequestParsingContext \<Rightarrow> rexn + (bool \<times> RestRequestParsingContext)" where
  "matchPaths [] context = Inr (True, context)"
| "matchPaths (p # ps) context =
     (case matchPath p context of
        Inl e \<Rightarrow> Inl e
      | Inr (False, context1) \<Rightarrow> Inr (False, context1)
      | Inr (True, context1) \<Rightarrow> matchPaths ps context1)"

fun noNone :: "RestRequestRouter \<Rightarrow> bool" and noNoneRoutes :: "Route list \<Rightarrow> bool" where
  "noNone (Router rh d t srs) = noNoneRoutes srs"
| "noNoneRoutes [] = True"
| "noNoneRoutes (MkRoute p f r eo # srs) = (type p \<noteq> NONE \<and> noNone r \<and> noNoneRoutes srs)"

definition optionsVerbs :: "RestRequestRouter \<Rightarrow> RestRequest \<Rightarrow> string_set" where
  "optionsVerbs r request = fst (snd (options r request (newContext request) []))"

definition optionsResponse :: "string_set \<Rightarrow> sent" where
  "optionsResponse vs =
     (if vs = [] then SendHttpResponse 400 (Text []) [] [(''Allow'', getVerbsStr vs)]
      else SendHttpResponse 200 HelpDocument ''application/json'' [(''Allow'', getVerbsStr vs)])"

definition keepsContext ::
  "(RestConnection \<Rightarrow> RestRequest \<Rightarrow> RestRequestParsingContext
     \<Rightarrow> 'a outcome \<times> RestConnection \<times> RestRequestParsingContext) \<Rightarrow> bool" where
  "keepsContext h \<longleftrightarrow>
     (\<forall>connection request c out connection1 c1.
        h connection request c = (out, connection1, c1) \<longrightarrow>
          out \<noteq> Terminated \<and> length (resources c) \<le> length (resources c1)
          \<and> length (objects c) \<le> length (objects c1))"

fun wellBehaved :: "RestRequestRouter \<Rightarrow> bool" and wellBehavedRoutes :: "Route list \<Rightarrow> bool" where
  "wellBehaved (Router rh d t srs) =
     ((case rh of None \<Rightarrow> True | Some h \<Rightarrow> keepsContext h) \<and> wellBehavedRoutes srs)"
| "wellBehavedRoutes [] = True"
| "wellBehavedRoutes (MkRoute p f r eo # srs) =
     ((case eo of None \<Rightarrow> True | Some e \<Rightarrow> keepsContext e) \<and> wellBehaved r \<and> wellBehavedRoutes srs)"

definition grows ::
  "RestRequestParsingContext \<Rightarrow> 'a outcome \<times> RestConnection \<times> RestRequestParsingContext \<Rightarrow> bool" where
  "grows c res \<longleftrightarrow>
     fst res \<noteq> Terminated \<and> length (resources c) \<le> length (resources (snd (snd res)))
     \<and> length (objects c) \<le> length (objects (snd (snd res)))"

section \<open>The pooled HTTP client (http\_client.cc)\<close>

record HttpRequest =
  rqVerb :: string
  rqUrl :: string
  rqContent :: string

datatype HttpState = IDLE | HEADERS | BODY

text \<open>
  Of an \<open>HttpConnection\<close> the pool is concerned with \<open>responseState_\<close>, \<open>request_\<close> (none
  after \<open>clear()\<close>) and \<open>uploadOffset_\<close>.
\<close>

record HttpConnection =
  responseState :: HttpState
  request :: "HttpRequest option"
  uploadOffset :: nat






















section \<open>The client TCP socket (tcp\_socket.cc)\<close>

datatype ClientTcpSocketState = DISCONNECTED | CONNECTING | CONNECTED | DISCONNECTING

text \<open>
  Modelled from the spec: the ring buffer \<open>threadBuffer_\<close> (a jml class that the sources
  at hand do not hold). The spec has the outbound queue bounded, with "a fixed capacity
  configured at construction", and \<open>write\<close> refused when "the queue is full":
  \<open>tryPush\<close> appends unless the queue holds \<open>capacity\<close> messages.
\<close>

record RingBuffer =
  capacity :: nat
  messages :: "string list"

definition tryPush :: "RingBuffer \<Rightarrow> string \<Rightarrow> bool \<times> RingBuffer" where
  "tryPush b m =
     (if length (messages b) < capacity b then (True, b\<lparr>messages := messages b @ [m]\<rparr>)
      else (False, b))"

text \<open>
  Of the socket: \<open>state_\<close>, \<open>threadBuffer_\<close>, \<open>remainingMsgs_\<close> and the number of times
  \<open>wakeup_\<close> was signalled.
\<close>

record ClientTcpSocket =
  socketState :: ClientTcpSocketState
  threadBuffer :: RingBuffer
  remainingMsgs :: nat
  wakeupSignals :: nat

definition canSendMessages :: "ClientTcpSocket \<Rightarrow> bool" where
  "canSendMessages s \<longleftrightarrow> socketState s = CONNECTED \<or> socketState s = CONNECTING"

datatype socketExn = CannotWriteWhileNotConnected

text \<open>
  \<open>ClientTcpSocket::write\<close> (\<open>writeMsg\<close> here, \<open>write\<close> being a word of Isabelle's own): the
  result, or the exception, and the socket after the call.
\<close>

definition writeMsg :: "ClientTcpSocket \<Rightarrow> string \<Rightarrow> (socketExn + bool) \<times> ClientTcpSocket" where
  "writeMsg s data =
     (if canSendMessages s then
        (case tryPush (threadBuffer s) data of
           (True, b) \<Rightarrow>
             (Inr True, s\<lparr>threadBuffer := b, wakeupSignals := wakeupSignals s + 1,
                          remainingMsgs := remainingMsgs s + 1\<rparr>)
         | (False, b) \<Rightarrow> (Inr False, s\<lparr>threadBuffer := b\<rparr>))
      else (Inl CannotWriteWhileNotConnected, s))"

definition queueFull :: "ClientTcpSocket \<Rightarrow> bool" where
  "queueFull s \<longleftrightarrow> capacity (threadBuffer s) \<le> length (messages (threadBuffer s))"

definition socketExample :: "ClientTcpSocketState \<Rightarrow> string list \<Rightarrow> ClientTcpSocket" where
  "socketExample st ms =
     \<lparr>socketState = st, threadBuffer = \<lparr>capacity = 2, messages = ms\<rparr>,
      remainingMsgs = length ms, wakeupSignals = 0\<rparr>"



section \<open>Properties of the parser\<close>

subsection \<open>The scanning lambdas on a line laid out as a list\<close>


lemma skipToChar_notfound:
  "c \<notin> set s \<Longrightarrow> (t \<longrightarrow> CR \<notin> set s \<and> LF \<notin> set s) \<Longrightarrow>
   skipToChar (pre @ s) (length pre) c t = Inr (False, length pre + length s)"
proof (induction s arbitrary: pre)
  case Nil
  show ?case by (simp add: skipToChar.simps [of _ "length pre"])
next
  case (Cons a s)
  from Cons.prems have "skipToChar ((pre @ [a]) @ s) (length (pre @ [a])) c t
      = Inr (False, length (pre @ [a]) + length s)"
    by (intro Cons.IH) auto
  with Cons.prems show ?case
    by (auto simp: skipToChar.simps [of _ "length pre"] nth_append)
qed

lemma skipChar_run:
  "(rest = [] \<or> hd rest \<noteq> c) \<Longrightarrow>
   skipChar (pre @ replicate a c @ rest) (length pre) c = length pre + a"
proof (induction a arbitrary: pre)
  case 0
  then show ?case by (cases rest) (auto simp: skipChar.simps [of _ "length pre"] nth_append)
next
  case (Suc a)
  from Suc.prems have "skipChar ((pre @ [c]) @ replicate a c @ rest) (length (pre @ [c])) c
      = length (pre @ [c]) + a"
    by (intro Suc.IH)
  then show ?case
    by (auto simp: skipChar.simps [of _ "length pre"] nth_append)
qed

lemma skipToCharH_found:
  "c \<notin> set s \<Longrightarrow> skipToCharH (pre @ s @ c # rest) (length pre) c = (True, length pre + length s)"
proof (induction s arbitrary: pre)
  case Nil
  show ?case by (simp add: skipToCharH.simps [of _ "length pre"])
next
  case (Cons a s)
  from Cons.prems have "skipToCharH ((pre @ [a]) @ s @ c # rest) (length (pre @ [a])) c
      = (True, length (pre @ [a]) + length s)"
    by (intro Cons.IH) auto
  with Cons.prems show ?case
    by (auto simp: skipToCharH.simps [of _ "length pre"] nth_append)
qed


lemma tolower_ContentLength: "map tolower ''Content-Length'' = ''content-length''"
  by code_simp

lemma length_ContentLength: "length ''Content-Length'' = 14"
  by simp

lemma matchString_no:
  "map tolower (take 14 h) \<noteq> ''content-length'' \<Longrightarrow> fst (matchString h 0 ''Content-Length'') = False"
  unfolding matchString_def Let_def tolower_ContentLength length_ContentLength by simp

lemma handleHeader_other:
  "map tolower (take 14 h) \<noteq> ''content-length'' \<Longrightarrow> handleHeader antoi p h = (p, [OnHeader h], None)"
  using matchString_no [of h] by (auto simp: handleHeader_def split: prod.splits bool.splits)

lemma matchString_yes:
  "map tolower name = ''content-length'' \<Longrightarrow> matchString (name @ rest) 0 ''Content-Length'' = (True, 14)"
proof -
  assume a: "map tolower name = ''content-length''"
  then have "length (map tolower name) = 14" by simp
  then have l: "length name = 14" by simp
  with a show ?thesis unfolding matchString_def Let_def tolower_ContentLength length_ContentLength by simp
qed

lemma handleHeader_contentLength:
  assumes name: "map tolower name = ''content-length''"
    and val: "val = [] \<or> hd val \<noteq> CHR '' ''"
    and n: "antoi val = Inr n"
  shows "handleHeader antoi p (name @ replicate a (CHR '' '') @ CHR '':'' # replicate b (CHR '' '') @ val)
         = (p\<lparr>remainingBody := to_uint64 n\<rparr>,
            [OnHeader (name @ replicate a (CHR '' '') @ CHR '':'' # replicate b (CHR '' '') @ val)], None)"
proof -
  let ?sp = "CHR '' ''"
  let ?h = "name @ replicate a ?sp @ CHR '':'' # replicate b ?sp @ val"
  from name have "length (map tolower name) = 14" by simp
  then have l: "length name = 14" by simp
  have m: "matchString ?h 0 ''Content-Length'' = (True, 14)" by (rule matchString_yes [OF name])
  have s1: "skipChar ?h 14 ?sp = 14 + a"
    using skipChar_run [of "CHR '':'' # replicate b ?sp @ val" ?sp name a] l by simp
  have s2: "skipToCharH ?h (14 + a) (CHR '':'') = (True, 14 + a)"
    using skipToCharH_found [of "CHR '':''" "[]" "name @ replicate a ?sp" "replicate b ?sp @ val"] l
    by simp
  have s3: "skipChar ?h (14 + a + 1) ?sp = 14 + a + 1 + b"
    using skipChar_run [of val ?sp "name @ replicate a ?sp @ [CHR '':'']" b] l val by simp
  have d: "drop (14 + a + 1 + b) ?h = val" using l by simp
  show ?thesis
    unfolding handleHeader_def m using s1 s2 s3 d n by (simp add: Let_def)
qed


























lemma dataBytes_simps [simp]:
  "dataBytes [] = []"
  "dataBytes (OnData d # es) = d @ dataBytes es"
  "dataBytes (OnResponseStart v c # es) = dataBytes es"
  "dataBytes (OnHeader h # es) = dataBytes es"
  "dataBytes (OnDone # es) = dataBytes es"
  "dataBytes (es @ fs) = dataBytes es @ dataBytes fs"
  by (simp_all add: dataBytes_def)

lemma dataBytes_headers [simp]: "dataBytes (map OnHeader hs) = []"
  by (induction hs) simp_all


lemma count_done_headers [simp]: "filter (\<lambda>e. e = OnDone) (map OnHeader hs) = []"
  by (induction hs) simp_all

lemma count_done_data [simp]: "filter (\<lambda>e. e = OnDone) (map OnData cs) = []"
  by (induction cs) simp_all









text \<open>
  C3. \<open>handleHeader\<close> looks at the first fourteen bytes of the line, without regard to
  case. When they spell \<open>Content-Length\<close>, it skips blanks, the colon and blanks again and
  stores what \<open>antoi\<close> reads from the rest in \<open>remainingBody_\<close>. Any other line, also
  \<open>Transfer-Encoding: chunked\<close> and \<open>Connection: close\<close>, leaves the parser as it was.
  Either way the whole line goes to \<open>onHeader\<close>. A length between 0 and \<open>2^64\<close> is
  stored as it is.
\<close>

theorem handleHeader_content_length_only:
  "(map tolower name = ''content-length'' \<and> (val = [] \<or> hd val \<noteq> CHR '' '') \<and> antoi val = Inr n
      \<longrightarrow> handleHeader antoi p (name @ replicate a (CHR '' '') @ CHR '':'' # replicate b (CHR '' '') @ val)
          = (p\<lparr>remainingBody := to_uint64 n\<rparr>,
             [OnHeader (name @ replicate a (CHR '' '') @ CHR '':'' # replicate b (CHR '' '') @ val)], None)
        \<and> (0 \<le> n \<and> n < 2 ^ 64 \<longrightarrow> to_uint64 n = nat n))
   \<and> (map tolower (take 14 h) \<noteq> ''content-length''
      \<longrightarrow> handleHeader antoi p h = (p, [OnHeader h], None))"
  using handleHeader_contentLength [of name val antoi n p a b] handleHeader_other [of h antoi p]
  by (simp add: to_uint64_def)

theorem handleHeader_content_length_only_witness:
  "handleHeader antoiDec clear ''content-LENGTH :  42''
     = (clear\<lparr>remainingBody := 42\<rparr>, [OnHeader ''content-LENGTH :  42''], None)
   \<and> handleHeader antoiDec clear ''Transfer-Encoding: chunked''
     = (clear, [OnHeader ''Transfer-Encoding: chunked''], None)"
proof -
  have 1: "map tolower ''content-LENGTH'' = ''content-length''" by code_simp
  have 2: "antoiDec ''42'' = Inr 42" by code_simp
  have 3: "map tolower (take 14 ''Transfer-Encoding: chunked'') \<noteq> ''content-length''" by code_simp
  have 4: "to_uint64 42 = 42" by (simp add: to_uint64_def)
  from handleHeader_content_length_only [of "''content-LENGTH''" "''42''" antoiDec 42 clear
      "Suc 0" "Suc (Suc 0)" "''Transfer-Encoding: chunked''"] 1 2 3 4
  show ?thesis by simp
qed

theorem handleHeader_chunked_close_counterexample:
  "handleHeader antoiDec clear ''Transfer-Encoding: chunked''
     = (clear, [OnHeader ''Transfer-Encoding: chunked''], None)
   \<and> handleHeader antoiDec clear ''Connection: close''
     = (clear, [OnHeader ''Connection: close''], None)"
  by code_simp





text \<open>
  A split inside the status line is another matter. A first piece of sixteen bytes or
  more that ends on the CR of the status line is parsed to its end and dropped, where the
  header branch saves such a piece to \<open>buffer_\<close>; the next piece then starts a status
  line of its own.
\<close>

lemma status_line_split_after_CR:
  "feedAll antoiDec clear
     [''HTTP/1.1 200 OK'' @ [CR], [LF] @ ''Content-Length: 0'' @ [CR, LF, CR, LF]]
     = (clear, [], Some VersionMustStartWithHTTP)
   \<and> feedAll antoiDec clear
     [''HTTP/1.1 200 OK'' @ [CR] @ [LF] @ ''Content-Length: 0'' @ [CR, LF, CR, LF]]
     = (clear, [OnResponseStart ''HTTP/1.1'' 200, OnHeader ''Content-Length: 0'', OnDone], None)"
  by code_simp




subsection \<open>Violations of the syntax\<close>







section \<open>Properties of the router\<close>

lemma str_find_0: "str_find s pat = Some 0 \<longleftrightarrow> prefix pat s"
  by (cases s) auto

lemma matchPath_string:
  assumes "type p = STRING"
  shows "matchPath p context =
     (if prefix (path p) (remaining context)
      then Inr (True, context\<lparr>resources := resources context @ [path p],
                              remaining := drop (length (path p)) (remaining context)\<rparr>)
      else Inr (False, context))"
  using assms by (simp add: matchPath_def str_find_0)

lemma matchPath_regex:
  assumes "type p = REGEX" and "regexContract (rex p)" and "matchPath p context = Inr (True, context1)"
  shows "\<exists>m. regex_search (rex p) (remaining context) = Some m \<and> \<not> prefix_matched m
           \<and> length (subs m) = 1 + mark_count (rex p)
           \<and> resources context1 = resources context @ subs m
           \<and> remaining context = hd (subs m) @ remaining context1
           \<and> objects context1 = objects context"
proof -
  from assms(1,3) obtain m where m: "regex_search (rex p) (remaining context) = Some m"
    and np: "\<not> prefix_matched m"
    and c1: "context1 = context\<lparr>resources := resources context @ subs m,
          remaining := drop (case subs m of [] \<Rightarrow> 0 | full # _ \<Rightarrow> length full) (remaining context)\<rparr>"
    by (auto simp: matchPath_def split: option.splits if_splits)
  from assms(2) m np have len: "length (subs m) = mark_count (rex p) + 1"
    and pre: "prefix (hd (subs m)) (remaining context)"
    by (auto simp: regexContract_def)
  from len obtain full rest where s: "subs m = full # rest" by (cases "subs m") auto
  from pre s obtain tail where t: "remaining context = full @ tail" by (auto simp: prefix_def)
  from c1 s t len m np show ?thesis by simp
qed

lemma matchPath_count:
  assumes "type p = REGEX \<longrightarrow> regexContract (rex p)" and "matchPath p context = Inr (True, context1)"
  shows "length (resources context1) = length (resources context) + numCapturedElements p"
proof (cases "type p")
  case NONE
  with assms(2) show ?thesis by (simp add: matchPath_def)
next
  case STRING
  with assms(2) show ?thesis
    by (auto simp: matchPath_string numCapturedElements_def split: if_splits)
next
  case REGEX
  with assms matchPath_regex [of p "context" context1] show ?thesis
    by (auto simp: numCapturedElements_def)
qed

lemma matchPaths_count:
  assumes "\<forall>p \<in> set ps. type p = REGEX \<longrightarrow> regexContract (rex p)"
    and "matchPaths ps context = Inr (True, context1)"
  shows "length (resources context1) = length (resources context) + sum_list (map numCapturedElements ps)"
  using assms
proof (induction ps arbitrary: "context")
  case Nil
  then show ?case by simp
next
  case (Cons p ps)
  from Cons.prems(2) obtain c where m: "matchPath p context = Inr (True, c)"
    and r: "matchPaths ps c = Inr (True, context1)"
    by (auto split: sum.splits prod.splits bool.splits)
  from Cons.prems(1) have "type p = REGEX \<longrightarrow> regexContract (rex p)" by simp
  from matchPath_count [OF this m] Cons.IH [OF _ r] Cons.prems(1) show ?case by simp
qed

lemma itemsSearch_contract:
  "itemsSearch skipped s = Some m \<Longrightarrow>
   length (subs m) = 2 \<and> (\<not> prefix_matched m \<longrightarrow> \<not> skipped \<and> prefix (hd (subs m)) s)"
proof (induction s arbitrary: skipped)
  case Nil
  then show ?case by simp
next
  case (Cons x xs)
  define s where "s = x # xs"
  define digits where "digits = takeWhile (\<lambda>c. c \<in> set ''0123456789'') (drop 7 s)"
  define rest where "rest = dropWhile (\<lambda>c. c \<in> set ''0123456789'') (drop 7 s)"
  define full where "full = ''/items/'' @ digits"
  have step: "itemsSearch skipped (x # xs) =
      (if take 7 s = ''/items/'' \<and> digits \<noteq> []
       then Some \<lparr>prefix_matched = skipped, subs = [full, digits]\<rparr>
       else itemsSearch True xs)"
    unfolding s_def digits_def full_def by (simp only: itemsSearch.simps Let_def)
  show ?case
  proof (cases "take 7 s = ''/items/'' \<and> digits \<noteq> []")
    case True
    then have "itemsSearch skipped (x # xs) = Some \<lparr>prefix_matched = skipped, subs = [full, digits]\<rparr>"
      unfolding step by simp
    with Cons.prems have m: "m = \<lparr>prefix_matched = skipped, subs = [full, digits]\<rparr>" by simp
    have "s = take 7 s @ drop 7 s" by (simp only: append_take_drop_id)
    also have "drop 7 s = digits @ rest"
      unfolding digits_def rest_def by (simp only: takeWhile_dropWhile_id)
    finally have "s = full @ rest" using True unfolding full_def by (simp only: append_assoc)
    then have "prefix full s" unfolding prefix_def by blast
    with m show ?thesis unfolding s_def [symmetric] by simp
  next
    case False
    then have "itemsSearch skipped (x # xs) = itemsSearch True xs"
      unfolding step by auto
    with Cons.prems have r: "itemsSearch True xs = Some m" by simp
    from Cons.IH [OF r] show ?thesis by auto
  qed
qed

lemma itemsRx_contract: "regexContract itemsRx"
  using itemsSearch_contract [of False] by (auto simp: regexContract_def itemsRx_def)

text \<open>
  C2. A literal path matches exactly when \<open>remaining\<close> begins with it; the match pushes
  the literal onto \<open>resources\<close> and takes it off the front of \<open>remaining\<close>. A regular
  expression that keeps the library's contract matches only at the start of \<open>remaining\<close>;
  the match pushes the full match and every capture group, \<open>1 + mark_count()\<close> entries in
  order, and takes the full match off the front of \<open>remaining\<close>. So along any chain of
  path specs that all matched, \<open>resources\<close> has grown by the sum of their
  \<open>numCapturedElements()\<close>.
\<close>

theorem matchPath_pushes_and_strips:
  "(type p = STRING \<longrightarrow>
      ((\<exists>c. matchPath p context = Inr (True, c)) \<longleftrightarrow> prefix (path p) (remaining context))
      \<and> (\<forall>c. matchPath p context = Inr (True, c) \<longrightarrow>
             resources c = resources context @ [path p]
             \<and> remaining context = path p @ remaining c))
   \<and> (type p = REGEX \<and> regexContract (rex p) \<longrightarrow>
        (\<forall>c. matchPath p context = Inr (True, c) \<longrightarrow>
           (\<exists>m. regex_search (rex p) (remaining context) = Some m \<and> \<not> prefix_matched m
              \<and> length (subs m) = 1 + mark_count (rex p)
              \<and> resources c = resources context @ subs m
              \<and> remaining context = hd (subs m) @ remaining c)))
   \<and> ((\<forall>q \<in> set ps. type q = REGEX \<longrightarrow> regexContract (rex q)) \<longrightarrow>
        (\<forall>c. matchPaths ps context = Inr (True, c) \<longrightarrow>
           length (resources c) = length (resources context) + sum_list (map numCapturedElements ps)))"
proof (intro conjI impI allI)
  assume "type p = STRING"
  then show "(\<exists>c. matchPath p context = Inr (True, c)) \<longleftrightarrow> prefix (path p) (remaining context)"
    by (simp add: matchPath_string)
next
  fix c
  assume "type p = STRING" and "matchPath p context = Inr (True, c)"
  then have "prefix (path p) (remaining context)"
    and c: "c = context\<lparr>resources := resources context @ [path p],
                         remaining := drop (length (path p)) (remaining context)\<rparr>"
    by (auto simp: matchPath_string split: if_splits)
  then obtain tail where "remaining context = path p @ tail" by (auto simp: prefix_def)
  with c show "resources c = resources context @ [path p]" "remaining context = path p @ remaining c"
    by simp_all
next
  fix c
  assume "type p = REGEX \<and> regexContract (rex p)" and "matchPath p context = Inr (True, c)"
  with matchPath_regex [of p "context" c]
  show "\<exists>m. regex_search (rex p) (remaining context) = Some m \<and> \<not> prefix_matched m
              \<and> length (subs m) = 1 + mark_count (rex p)
              \<and> resources c = resources context @ subs m
              \<and> remaining context = hd (subs m) @ remaining c"
    by blast
next
  fix c
  assume "\<forall>q \<in> set ps. type q = REGEX \<longrightarrow> regexContract (rex q)"
    and "matchPaths ps context = Inr (True, c)"
  then show "length (resources c) = length (resources context) + sum_list (map numCapturedElements ps)"
    by (rule matchPaths_count)
qed

theorem matchPath_pushes_and_strips_witness:
  "matchPath (lit ''/v1'') \<lparr>resources = [], objects = [], remaining = ''/v1/items/42''\<rparr>
     = Inr (True, \<lparr>resources = [''/v1''], objects = [], remaining = ''/items/42''\<rparr>)
   \<and> matchPath \<lparr>type = REGEX, path = ''/items/([0-9]+)'', rex = itemsRx\<rparr>
        \<lparr>resources = [''/v1''], objects = [], remaining = ''/items/42''\<rparr>
     = Inr (True, \<lparr>resources = [''/v1'', ''/items/42'', ''42''], objects = [], remaining = []\<rparr>)
   \<and> length [''/v1'', ''/items/42'', ''42'']
     = 0 + sum_list (map numCapturedElements
                       [lit ''/v1'', \<lparr>type = REGEX, path = ''/items/([0-9]+)'', rex = itemsRx\<rparr>])"
proof -
  let ?c0 = "\<lparr>resources = [], objects = [], remaining = ''/v1/items/42''\<rparr>"
  let ?c1 = "\<lparr>resources = [''/v1''], objects = [], remaining = ''/items/42''\<rparr>"
  let ?c2 = "\<lparr>resources = [''/v1'', ''/items/42'', ''42''], objects = [], remaining = []\<rparr>"
  let ?rx = "\<lparr>type = REGEX, path = ''/items/([0-9]+)'', rex = itemsRx\<rparr>"
  have m1: "matchPath (lit ''/v1'') ?c0 = Inr (True, ?c1)" by code_simp
  have m2: "matchPath ?rx ?c1 = Inr (True, ?c2)" by code_simp
  have ms: "matchPaths [lit ''/v1'', ?rx] ?c0 = Inr (True, ?c2)" using m1 m2 by simp
  have t: "type (lit ''/v1'') = STRING" "type ?rx = REGEX" by (simp_all add: lit_def)
  have k: "\<forall>q \<in> set [lit ''/v1'', ?rx]. type q = REGEX \<longrightarrow> regexContract (rex q)"
    using itemsRx_contract by (simp add: lit_def)
  from matchPath_pushes_and_strips [of "lit ''/v1''" ?c0 "[lit ''/v1'', ?rx]"] t k ms
  have "length (resources ?c2) = length (resources ?c0)
          + sum_list (map numCapturedElements [lit ''/v1'', ?rx])"
    by blast
  with m1 m2 show ?thesis by simp
qed

lemma guardExit_restores:
  assumes "guardExit (saveState c0) (out0, conn0, c) = (out, conn, c1)" and "out \<noteq> Terminated"
  shows "remaining c1 = remaining c0 \<and> length (resources c1) = length (resources c0)
         \<and> length (objects c1) = length (objects c0) \<and> out = out0 \<and> conn = conn0"
  using assms
  by (auto simp: guardExit_def restoreState_def saveState_def split: outcome.splits if_splits)

lemma getHelp_noNone:
  "noNone r \<Longrightarrow> getHelp r = None" "noNoneRoutes srs \<Longrightarrow> getHelpRoutes srs = None"
  by (induction r and srs rule: getHelp_getHelpRoutes.induct) (auto split: PathSpecType.splits)

lemma matchPath_shape:
  assumes "matchPath p c = Inr (b, c1)"
  shows "\<exists>xs r. c1 = c\<lparr>resources := resources c @ xs, remaining := r\<rparr>"
proof (cases b)
  case False
  with assms have "c1 = c" by (auto simp: matchPath_def split: PathSpecType.splits if_splits option.splits)
  then have "c1 = c\<lparr>resources := resources c @ [], remaining := remaining c\<rparr>" by simp
  then show ?thesis by blast
next
  case True
  with assms show ?thesis
    by (auto simp: matchPath_def split: PathSpecType.splits if_splits option.splits)
qed

lemma guardExit_matched:
  "guardExit (saveState c) (Returned u, vs, c\<lparr>resources := resources c @ xs, remaining := r\<rparr>)
     = (Returned u, vs, c)"
  by (simp add: guardExit_def saveState_def restoreState_def)

lemma options_total:
  "noNone r \<Longrightarrow> \<exists>vs'. options r req c vs = (Returned (), vs', c)"
  "noNoneRoutes srs \<Longrightarrow> \<exists>vs'. optionsRoutes srs req c vs = (Returned (), vs', c)"
  "noNoneRoutes [sr] \<Longrightarrow> \<exists>vs'. optionsRoute sr req c vs = (Returned (), vs', c)"
proof (induction r req c vs and srs req c vs and sr req c vs
    rule: options_optionsRoutes_optionsRoute.induct)
  case (1 rh d t srs req c vs)
  then show ?case by simp
next
  case (2 req c vs)
  show ?case by simp
next
  case (3 sr srs req c vs)
  from "3.prems" have a: "noNoneRoutes [sr]" and b: "noNoneRoutes srs"
    by (cases sr, simp)+
  from "3.IH"(1) [OF a] obtain vs1 where s: "optionsRoute sr req c vs = (Returned (), vs1, c)"
    by blast
  from "3.IH"(2) [OF s [symmetric] refl refl b] obtain vs2 where
    "optionsRoutes srs req c vs1 = (Returned (), vs2, c)" by blast
  with s show ?case by simp
next
  case (4 p f r eo req c vs)
  from "4.prems" have tp: "type p \<noteq> NONE" and nr: "noNone r" by simp_all
  from tp obtain b c1 where m: "matchPath p c = Inr (b, c1)"
    by (cases "matchPath p c")
      (auto simp: matchPath_def split: PathSpecType.splits if_splits option.splits)
  from matchPath_shape [OF m] obtain xs rm where
    c1: "c1 = c\<lparr>resources := resources c @ xs, remaining := rm\<rparr>" by blast
  show ?case
  proof (cases b)
    case False
    with m c1 show ?thesis by (simp add: guardExit_matched)
  next
    case True
    then have bt: "b = True" by simp
    note gh = getHelp_noNone(1) [OF nr]
    show ?thesis
    proof (cases "remaining c1 = []")
      case e: True
      from "4.IH"(1) [OF m refl bt e refl gh nr] obtain vs1 where
        "options r req c1 (set_insert_range (verbs f) vs) = (Returned (), vs1, c1)"
        by auto
      with m True e gh c1 show ?thesis by (simp add: guardExit_matched)
    next
      case e: False
      from "4.IH"(2) [OF m refl bt e nr] obtain vs1 where
        "options r req c1 vs = (Returned (), vs1, c1)"
        by auto
      with m True e c1 show ?thesis by (simp add: guardExit_matched)
    qed
  qed
qed

lemma guardExit_same:
  "guardExit (saveState c) (out, vs, c) = (out, vs, c)"
  by (cases out) (simp_all add: guardExit_def saveState_def restoreState_def)

lemma guardExit_matched_any:
  "out \<noteq> Terminated \<Longrightarrow>
   guardExit (saveState c) (out, vs, c\<lparr>resources := resources c @ xs, remaining := r\<rparr>) = (out, vs, c)"
  by (cases out) (simp_all add: guardExit_def saveState_def restoreState_def)

lemma options_frame:
  "options r req c vs = (out, vs1, c1) \<Longrightarrow> c1 = c \<and> out \<noteq> Terminated"
  "optionsRoutes srs req c vs = (out, vs1, c1) \<Longrightarrow> c1 = c \<and> out \<noteq> Terminated"
  "optionsRoute sr req c vs = (out, vs1, c1) \<Longrightarrow> c1 = c \<and> out \<noteq> Terminated"
proof (induction r req c vs and srs req c vs and sr req c vs
    arbitrary: out vs1 c1 and out vs1 c1 and out vs1 c1
    rule: options_optionsRoutes_optionsRoute.induct)
  case (1 rh d t srs req c vs)
  then show ?case by simp
next
  case (2 req c vs)
  then show ?case by auto
next
  case (3 sr srs req c vs)
  obtain o1 v1 k1 where s: "optionsRoute sr req c vs = (o1, v1, k1)"
    by (cases "optionsRoute sr req c vs") auto
  from "3.IH"(1) [OF s] have k: "k1 = c" and t: "o1 \<noteq> Terminated" by simp_all
  show ?case
  proof (cases o1)
    case (Returned u)
    with s "3.prems" have "optionsRoutes srs req k1 v1 = (out, vs1, c1)" by simp
    from "3.IH"(2) [OF s [symmetric] Returned refl this] k show ?thesis by simp
  next
    case (Threw e)
    with s k "3.prems" show ?thesis by auto
  next
    case Terminated
    with t show ?thesis by simp
  qed
next
  case (4 p f r eo req c vs)
  show ?case
  proof (cases "matchPath p c")
    case (Inl e)
    with "4.prems" show ?thesis by (auto simp: guardExit_same)
  next
    case (Inr bc)
    obtain b k where bc: "bc = (b, k)" by (cases bc)
    with Inr have m: "matchPath p c = Inr (b, k)" by simp
    from matchPath_shape [OF m] obtain xs rm where
      k: "k = c\<lparr>resources := resources c @ xs, remaining := rm\<rparr>" by blast
    show ?thesis
    proof (cases b)
      case False
      with m k "4.prems" show ?thesis by (auto simp: guardExit_matched)
    next
      case True
      then have bt: "b = True" by simp
      show ?thesis
      proof (cases "remaining k = []")
        case e: True
        show ?thesis
        proof (cases "getHelp r")
          case (Some x)
          with m bt e k "4.prems" show ?thesis by (auto simp: guardExit_matched_any)
        next
          case None
          obtain o2 v2 k2 where s: "options r req k (set_insert_range (verbs f) vs) = (o2, v2, k2)"
            by (cases "options r req k (set_insert_range (verbs f) vs)") auto
          from "4.IH"(1) [OF m refl bt e refl None s] have "k2 = k" "o2 \<noteq> Terminated" by simp_all
          with s m bt e None k "4.prems" show ?thesis by (auto simp: guardExit_matched_any)
        qed
      next
        case e: False
        obtain o2 v2 k2 where s: "options r req k vs = (o2, v2, k2)"
          by (cases "options r req k vs") auto
        from "4.IH"(2) [OF m refl bt e s] have "k2 = k" "o2 \<noteq> Terminated" by simp_all
        with s m bt e k "4.prems" show ?thesis by (auto simp: guardExit_matched_any)
      qed
    qed
  qed
qed

lemma wellBehavedRoutes_Cons:
  "wellBehavedRoutes (sr # srs) \<longleftrightarrow> wellBehavedRoutes [sr] \<and> wellBehavedRoutes srs"
  by (cases sr) simp

lemma guardExit_grown:
  assumes "out \<noteq> Terminated" and "length (resources c) \<le> length (resources k)"
    and "length (objects c) \<le> length (objects k)"
  shows "\<exists>k1. guardExit (saveState c) (out, conn, k) = (out, conn, k1)
              \<and> length (resources k1) = length (resources c)
              \<and> length (objects k1) = length (objects c)"
  using assms by (cases out) (simp_all add: guardExit_def saveState_def restoreState_def)

lemma matchPath_grows:
  "matchPath p c = Inr (b, k) \<Longrightarrow>
   length (resources c) \<le> length (resources k) \<and> objects k = objects c"
  using matchPath_shape [of p c b k] by auto

lemma process_step:
  assumes rec: "\<And>connection req c. grows c (processRequest r connection req c)"
    and eo: "case eo of None \<Rightarrow> True | Some e \<Rightarrow> keepsContext e"
  shows "grows c (process (MkRoute p f r eo) req c connection)"
proof (cases "(verbs f \<noteq> [] \<and> verb req \<notin> set (verbs f))
              \<or> \<not> list_all (filterMatched req) (filters f)")
  case True
  then show ?thesis by (auto simp: grows_def)
next
  case False
  define inner where "inner =
     (case matchPath p c of
        Inl e \<Rightarrow> (Threw e, connection, c)
      | Inr (False, context1) \<Rightarrow> (Returned MR_NO, connection, context1)
      | Inr (True, context1) \<Rightarrow>
          (case (case eo of None \<Rightarrow> (Returned (), connection, context1)
                          | Some extract \<Rightarrow> extract connection req context1) of
             (Returned u, connection2, context2) \<Rightarrow>
               if responseSent connection2 then (Returned MR_YES, connection2, context2)
               else processRequest r connection2 req context2
           | (Threw e, connection2, context2) \<Rightarrow> (Threw e, connection2, context2)
           | (Terminated, connection2, context2) \<Rightarrow> (Terminated, connection2, context2)))"
  from False have pr: "process (MkRoute p f r eo) req c connection = guardExit (saveState c) inner"
    by (auto simp: inner_def)
  have g: "grows c inner"
  proof (cases "matchPath p c")
    case (Inl e)
    then show ?thesis by (simp add: inner_def grows_def)
  next
    case (Inr bk)
    obtain b k where bk: "bk = (b, k)" by (cases bk)
    with Inr have m: "matchPath p c = Inr (b, k)" by simp
    note mg = matchPath_grows [OF m]
    show ?thesis
    proof (cases b)
      case False
      with m mg show ?thesis by (simp add: inner_def grows_def)
    next
      case True
      obtain o2 conn2 k2 where x: "(case eo of None \<Rightarrow> (Returned (), connection, k)
                          | Some extract \<Rightarrow> extract connection req k) = (o2, conn2, k2)"
        by (cases "(case eo of None \<Rightarrow> (Returned (), connection, k)
                          | Some extract \<Rightarrow> extract connection req k)") auto
      have xg: "o2 \<noteq> Terminated \<and> length (resources k) \<le> length (resources k2)
                \<and> length (objects k) \<le> length (objects k2)"
      proof (cases eo)
        case None
        with x show ?thesis by auto
      next
        case (Some e)
        with eo have "keepsContext e" by simp
        with x Some show ?thesis unfolding keepsContext_def by auto
      qed
      show ?thesis
      proof (cases o2)
        case (Returned u)
        show ?thesis
        proof (cases "responseSent conn2")
          case True
          with m \<open>b\<close> x Returned xg mg show ?thesis by (simp add: inner_def grows_def)
        next
          case False
          with m \<open>b\<close> x Returned have "inner = processRequest r conn2 req k2"
            by (simp add: inner_def)
          with rec [of k2 conn2 req] xg mg show ?thesis by (auto simp: grows_def)
        qed
      next
        case (Threw e)
        with m \<open>b\<close> x xg mg show ?thesis by (simp add: inner_def grows_def)
      next
        case Terminated
        with xg show ?thesis by simp
      qed
    qed
  qed
  obtain o1 conn1 k1 where i: "inner = (o1, conn1, k1)" by (cases inner) auto
  with g have "o1 \<noteq> Terminated" "length (resources c) \<le> length (resources k1)"
    "length (objects c) \<le> length (objects k1)" by (simp_all add: grows_def)
  from guardExit_grown [OF this, of conn1] obtain kf where
    "guardExit (saveState c) (o1, conn1, k1) = (o1, conn1, kf)"
    "length (resources kf) = length (resources c)" "length (objects kf) = length (objects c)"
    by blast
  with pr i \<open>o1 \<noteq> Terminated\<close> show ?thesis by (simp add: grows_def)
qed

lemma processRoutes_step:
  assumes "\<And>sr connection req c. sr \<in> set srs \<Longrightarrow> grows c (process sr req c connection)"
  shows "grows c (processRoutes srs connection req c)"
  using assms
proof (induction srs arbitrary: connection c)
  case Nil
  show ?case by (simp add: grows_def)
next
  case (Cons sr srs)
  obtain o1 conn1 k1 where p: "process sr req c connection = (o1, conn1, k1)"
    by (cases "process sr req c connection") auto
  from Cons.prems [of sr c req connection] p have g: "o1 \<noteq> Terminated"
    "length (resources c) \<le> length (resources k1)" "length (objects c) \<le> length (objects k1)"
    by (simp_all add: grows_def)
  show ?case
  proof (cases o1)
    case (Returned mr)
    show ?thesis
    proof (cases "mr = MR_YES \<or> mr = MR_ASYNC \<or> mr = MR_ERROR")
      case True
      with p Returned g show ?thesis by (auto simp: grows_def)
    next
      case False
      have "grows k1 (processRoutes srs conn1 req k1)"
        using Cons.prems by (intro Cons.IH) simp
      with p Returned False g show ?thesis by (auto simp: grows_def)
    qed
  next
    case (Threw e)
    with p g show ?thesis by (cases e) (simp_all add: grows_def)
  next
    case Terminated
    with g show ?thesis by simp
  qed
qed

lemma processRequest_step:
  assumes "\<And>sr connection req c. sr \<in> set srs \<Longrightarrow> grows c (process sr req c connection)"
    and "case rh of None \<Rightarrow> True | Some h \<Rightarrow> keepsContext h"
  shows "grows c (processRequest (Router rh d t srs) connection req c)"
proof (cases "verb req = ''OPTIONS''")
  case True
  obtain o1 vs k1 where o: "options (Router rh d t srs) req c [] = (o1, vs, k1)"
    by (cases "options (Router rh d t srs) req c []") auto
  from options_frame(1) [OF o] have "k1 = c" "o1 \<noteq> Terminated" by simp_all
  with o True show ?thesis by (cases o1) (simp_all add: grows_def)
next
  case False
  have rs: "grows c (processRoutes srs connection req c)"
    using assms(1) by (rule processRoutes_step)
  show ?thesis
  proof (cases rh)
    case None
    with False rs show ?thesis by simp
  next
    case (Some h)
    with assms(2) have k: "keepsContext h" by simp
    show ?thesis
    proof (cases "\<not> t \<or> remaining c = []")
      case True
      obtain o1 conn1 k1 where h: "h connection req c = (o1, conn1, k1)"
        by (cases "h connection req c") auto
      with k have "grows c (h connection req c)" unfolding keepsContext_def grows_def by auto
      with False Some True show ?thesis by simp
    next
      case nt: False
      with False Some rs show ?thesis by simp
    qed
  qed
qed

lemma wellBehaved_grows:
  "wellBehaved r \<Longrightarrow> grows c (processRequest r connection req c)"
  "wellBehavedRoutes [sr] \<Longrightarrow> grows c (process sr req c connection)"
proof (induction r and sr arbitrary: connection req c and connection req c)
  case (Router rh d t srs)
  from Router.prems have rh: "case rh of None \<Rightarrow> True | Some h \<Rightarrow> keepsContext h"
    and ws: "wellBehavedRoutes srs" by simp_all
  have each: "\<And>sr. sr \<in> set srs \<Longrightarrow> wellBehavedRoutes [sr]"
    using ws
  proof (induction srs)
    case Nil
    then show ?case by simp
  next
    case (Cons a srs)
    then show ?case using wellBehavedRoutes_Cons [of a srs] by auto
  qed
  have "\<And>sr connection req c. sr \<in> set srs \<Longrightarrow> grows c (process sr req c connection)"
    using Router.IH each by blast
  from processRequest_step [OF this rh]
  show ?case .
next
  case (MkRoute p f r eo)
  from MkRoute.prems have eo: "case eo of None \<Rightarrow> True | Some e \<Rightarrow> keepsContext e"
    and wr: "wellBehaved r" by simp_all
  with MkRoute.IH have "\<And>connection req c. grows c (processRequest r connection req c)"
    by blast
  from process_step [OF this eo]
  show ?case .
qed

lemma handleRequest_options:
  assumes "verb req = ''OPTIONS''" and "noNone r"
  shows "handleRequest r connection req
       = (Returned (), connection @ [optionsResponse (optionsVerbs r req)])"
proof -
  obtain rh d t srs where r: "r = Router rh d t srs" by (cases r)
  from options_total(1) [OF assms(2), of req "newContext req" "[]"] obtain vs where
    o: "options r req (newContext req) [] = (Returned (), vs, newContext req)" by blast
  then have v: "optionsVerbs r req = vs" by (simp add: optionsVerbs_def)
  from o r assms(1) have "processRequest r connection req (newContext req)
      = (Returned MR_YES, connection @ [optionsResponse vs], newContext req)"
    by (simp add: optionsResponse_def)
  then show ?thesis by (simp add: handleRequest_def v)
qed

lemma handleRequest_404:
  assumes "processRequest r connection req (newContext req) = (Returned MR_NO, connection1, c1)"
  shows "handleRequest r connection req
       = (Returned (), connection1 @ [SendErrorResponse 404
             (''unknown resource '' @ verb req @ '' '' @ resource req)])"
  using assms by (simp add: handleRequest_def)

text \<open>
  C8. An OPTIONS req is answered by \<open>processRequest\<close> itself, before any route is
  tried: with the verbs that \<open>options\<close> collects from the routes whose paths match the
  whole resource, joined by commas in the \<open>Allow\<close> header, and the status 200, or 400
  when there are none (no path of type \<open>NONE\<close> in the tree, on which \<open>getHelp\<close>
  throws). For any other verb, when \<open>processRequest\<close> returns \<open>MR_NO\<close>,
  \<open>handleRequest\<close> sends the error response 404.
\<close>

theorem options_synthesized_else_404:
  "(verb req = ''OPTIONS'' \<and> noNone r \<longrightarrow>
      handleRequest r connection req
        = (Returned (), connection @ [optionsResponse (optionsVerbs r req)]))
   \<and> (verb req \<noteq> ''OPTIONS''
        \<and> processRequest r connection req (newContext req) = (Returned MR_NO, connection1, c1) \<longrightarrow>
      handleRequest r connection req
        = (Returned (), connection1 @ [SendErrorResponse 404
             (''unknown resource '' @ verb req @ '' '' @ resource req)]))"
  using handleRequest_options [of req r connection] handleRequest_404 [of r connection req connection1 c1]
  by blast

theorem options_synthesized_else_404_witness:
  "handleRequest xRouter [] (exampleRequest ''OPTIONS'' ''/x'')
     = (Returned (), [SendHttpResponse 200 HelpDocument ''application/json'' [(''Allow'', ''GET,POST'')]])
   \<and> handleRequest xRouter [] (exampleRequest ''OPTIONS'' ''/y'')
     = (Returned (), [SendHttpResponse 400 (Text []) [] [(''Allow'', [])]])
   \<and> handleRequest xRouter [] (exampleRequest ''DELETE'' ''/x'')
     = (Returned (), [SendErrorResponse 404 ''unknown resource DELETE /x''])"
proof -
  have n: "noNone xRouter" by (simp add: xRouter_def itemsRouter_def lit_def)
  have v: "verb (exampleRequest ''OPTIONS'' ''/x'') = ''OPTIONS''" "verb (exampleRequest ''OPTIONS'' ''/y'') = ''OPTIONS''"
    "verb (exampleRequest ''DELETE'' ''/x'') \<noteq> ''OPTIONS''" by (simp_all add: exampleRequest_def)
  have o: "optionsResponse (optionsVerbs xRouter (exampleRequest ''OPTIONS'' ''/x''))
      = SendHttpResponse 200 HelpDocument ''application/json'' [(''Allow'', ''GET,POST'')]"
    "optionsResponse (optionsVerbs xRouter (exampleRequest ''OPTIONS'' ''/y''))
      = SendHttpResponse 400 (Text []) [] [(''Allow'', [])]"
    by code_simp+
  have p: "processRequest xRouter [] (exampleRequest ''DELETE'' ''/x'') (newContext (exampleRequest ''DELETE'' ''/x''))
      = (Returned MR_NO, [], newContext (exampleRequest ''DELETE'' ''/x''))"
    by code_simp
  from options_synthesized_else_404 [of "exampleRequest ''OPTIONS'' ''/x''" xRouter "[]"] v n o
  have A: "handleRequest xRouter [] (exampleRequest ''OPTIONS'' ''/x'')
     = (Returned (), [SendHttpResponse 200 HelpDocument ''application/json'' [(''Allow'', ''GET,POST'')]])"
    by simp
  from options_synthesized_else_404 [of "exampleRequest ''OPTIONS'' ''/y''" xRouter "[]"] v n o
  have B: "handleRequest xRouter [] (exampleRequest ''OPTIONS'' ''/y'')
     = (Returned (), [SendHttpResponse 400 (Text []) [] [(''Allow'', [])]])"
    by simp
  from options_synthesized_else_404 [of "exampleRequest ''DELETE'' ''/x''" xRouter "[]" "[]"
      "newContext (exampleRequest ''DELETE'' ''/x'')"] v p
  have C: "handleRequest xRouter [] (exampleRequest ''DELETE'' ''/x'')
     = (Returned (), [SendErrorResponse 404 ''unknown resource DELETE /x''])"
    by (simp add: exampleRequest_def)
  from A B C show ?thesis by simp
qed

lemma parseVerbs_verbs: "verbs (parseVerbs f) = verbs f"
  by (simp add: parseVerbs_def Let_def split: prod.splits)

text \<open>
  C7, on the code: the entries \<open>key=value\<close> and \<open>header:key=value\<close> do become
  parameter filters, with the location and the stripped key the claim gives. They also
  stay in \<open>verbs\<close>, because \<open>parseVerbs\<close> ends with \<open>newVerbs = verbs\<close>; a route
  filtered by \<open>a=b\<close> alone therefore turns away a GET req that carries \<open>a=b\<close>.
\<close>

theorem filter_only_entries_stay_verbs:
  "verbs (mkRequestFilter [''a=b'', ''header:x=y'']) = [''a=b'', ''header:x=y'']
   \<and> filters (mkRequestFilter [''a=b'', ''header:x=y''])
       = [\<lparr>location = QUERY, param = ''a'', paramValue = ''b''\<rparr>, \<lparr>location = HEADER, param = ''x'', paramValue = ''y''\<rparr>]
   \<and> process (MkRoute (lit ''/q'') (mkRequestFilter [''a=b'']) itemsRouter None)
        \<lparr>verb = ''GET'', resource = ''/q'', params = [(''a'', ''b'')], tryGetHeader = (\<lambda>k. [])\<rparr>
        \<lparr>resources = [], objects = [], remaining = ''/q''\<rparr> []
       = (Returned MR_NO, [], \<lparr>resources = [], objects = [], remaining = ''/q''\<rparr>)"
  by code_simp

text \<open>
  C10. Whatever \<open>Route::process\<close> returns or throws, \<open>MR_YES\<close> included, the context is
  put back: \<open>remaining\<close> and the lengths of \<open>resources\<close> and \<open>objects\<close> are what they were
  before the call. The one other way out of the call is a failed assertion in the
  destructor of the guard, which ends the program; it does not happen when no handler
  and no extractor below the route ends the program itself or hands the context back
  with fewer resources or objects than it was given.
\<close>

theorem process_puts_context_back:
  assumes "process route req context0 connection = (out, connection1, context1)"
  shows "(out \<noteq> Terminated \<longrightarrow>
            remaining context1 = remaining context0
            \<and> length (resources context1) = length (resources context0)
            \<and> length (objects context1) = length (objects context0))
       \<and> (wellBehavedRoutes [route] \<longrightarrow> out \<noteq> Terminated)"
proof -
  have A: "remaining context1 = remaining context0
       \<and> length (resources context1) = length (resources context0)
       \<and> length (objects context1) = length (objects context0)" if nt: "out \<noteq> Terminated"
  proof (cases route)
    case (MkRoute p f r eo)
    show ?thesis
    proof (cases "(verbs f \<noteq> [] \<and> verb req \<notin> set (verbs f))
                  \<or> \<not> list_all (filterMatched req) (filters f)")
      case True
      with assms MkRoute have "context1 = context0" by (auto split: if_splits)
      then show ?thesis by simp
    next
      case False
      with assms MkRoute obtain res where
        "guardExit (saveState context0) res = (out, connection1, context1)"
        by (auto split: if_splits)
      with nt guardExit_restores [of context0 "fst res" "fst (snd res)" "snd (snd res)" out connection1 context1]
      show ?thesis by simp
    qed
  qed
  have B: "out \<noteq> Terminated" if "wellBehavedRoutes [route]"
    using wellBehaved_grows(2) [OF that, of context0 req connection] assms
    by (simp add: grows_def)
  from A B show ?thesis by blast
qed

theorem process_puts_context_back_witness:
  "process (MkRoute (lit ''/items'') (mkRequestFilter [''GET'']) itemsRouter None) (exampleRequest ''GET'' ''/items'')
     \<lparr>resources = [''/v1''], objects = [], remaining = ''/items''\<rparr> []
   = (Returned MR_YES, [SendResponse 200 ''/v1/items|'' ''text/plain''],
      \<lparr>resources = [''/v1''], objects = [], remaining = ''/items''\<rparr>)"
proof -
  let ?c = "\<lparr>resources = [''/v1''], objects = [], remaining = ''/items''\<rparr>"
  let ?r = "MkRoute (lit ''/items'') (mkRequestFilter [''GET'']) itemsRouter None"
  obtain out conn c1 where p: "process ?r (exampleRequest ''GET'' ''/items'') ?c [] = (out, conn, c1)"
    by (cases "process ?r (exampleRequest ''GET'' ''/items'') ?c []") auto
  have e: "fst (snd (process ?r (exampleRequest ''GET'' ''/items'') ?c [])) = [SendResponse 200 ''/v1/items|'' ''text/plain'']"
    "resources (snd (snd (process ?r (exampleRequest ''GET'' ''/items'') ?c []))) = [''/v1'']"
    "objects (snd (snd (process ?r (exampleRequest ''GET'' ''/items'') ?c []))) = []"
    "fst (process ?r (exampleRequest ''GET'' ''/items'') ?c []) \<in> {Returned MR_YES, Terminated}"
    by code_simp+
  with p have o: "conn = [SendResponse 200 ''/v1/items|'' ''text/plain'']"
    "resources c1 = [''/v1'']" "objects c1 = []" "out \<in> {Returned MR_YES, Terminated}" by simp_all
  have "keepsContext echo" by (simp add: keepsContext_def echo_def)
  then have w: "wellBehavedRoutes [?r]" by (simp add: itemsRouter_def)
  from process_puts_context_back [OF p] w have nt: "out \<noteq> Terminated" and "remaining c1 = ''/items''"
    by simp_all
  with o have "c1 = ?c" "out = Returned MR_YES" by simp_all
  with p o show ?thesis by simp
qed

section \<open>Properties of the pool\<close>
















section \<open>Properties of the socket\<close>

text \<open>
  C9. In the states Connecting and Connected \<open>write\<close> returns \<open>true\<close> with the message
  appended to the queue, unless the queue is full: then, and only then, it returns
  \<open>false\<close>, and the socket is as it was, the queue included. In the states Disconnected
  and Disconnecting it throws and enqueues nothing.
\<close>

theorem write_accepts_or_refuses:
  "(socketState s = CONNECTING \<or> socketState s = CONNECTED \<longrightarrow>
      (\<not> queueFull s \<longrightarrow>
         fst (writeMsg s data) = Inr True
         \<and> messages (threadBuffer (snd (writeMsg s data))) = messages (threadBuffer s) @ [data]
         \<and> remainingMsgs (snd (writeMsg s data)) = remainingMsgs s + 1)
      \<and> (queueFull s \<longrightarrow> writeMsg s data = (Inr False, s))
      \<and> (fst (writeMsg s data) = Inr False \<longleftrightarrow> queueFull s))
   \<and> (socketState s = DISCONNECTED \<or> socketState s = DISCONNECTING \<longrightarrow>
        writeMsg s data = (Inl CannotWriteWhileNotConnected, s))"
  by (cases "socketState s")
     (auto simp: writeMsg_def canSendMessages_def tryPush_def queueFull_def)

theorem write_accepts_or_refuses_witness:
  "writeMsg (socketExample CONNECTED [''a'']) ''b''
     = (Inr True, \<lparr>socketState = CONNECTED, threadBuffer = \<lparr>capacity = 2, messages = [''a'', ''b'']\<rparr>,
                   remainingMsgs = 2, wakeupSignals = 1\<rparr>)
   \<and> writeMsg (socketExample CONNECTING [''a'', ''b'']) ''c'' = (Inr False, socketExample CONNECTING [''a'', ''b''])
   \<and> writeMsg (socketExample DISCONNECTING []) ''c''
       = (Inl CannotWriteWhileNotConnected, socketExample DISCONNECTING [])"
proof -
  have 1: "socketState (socketExample CONNECTED [''a'']) = CONNECTED"
    "\<not> queueFull (socketExample CONNECTED [''a''])"
    "socketState (socketExample CONNECTING [''a'', ''b'']) = CONNECTING"
    "queueFull (socketExample CONNECTING [''a'', ''b''])"
    "socketState (socketExample DISCONNECTING []) = DISCONNECTING"
    by (simp_all add: socketExample_def queueFull_def)
  have A: "writeMsg (socketExample CONNECTED [''a'']) ''b''
     = (Inr True, \<lparr>socketState = CONNECTED, threadBuffer = \<lparr>capacity = 2, messages = [''a'', ''b'']\<rparr>,
                   remainingMsgs = 2, wakeupSignals = 1\<rparr>)"
  proof -
    from write_accepts_or_refuses [of "socketExample CONNECTED [''a'']" "''b''"] 1
    have "fst (writeMsg (socketExample CONNECTED [''a'']) ''b'') = Inr True" by blast
    moreover have "snd (writeMsg (socketExample CONNECTED [''a'']) ''b'')
        = \<lparr>socketState = CONNECTED, threadBuffer = \<lparr>capacity = 2, messages = [''a'', ''b'']\<rparr>,
                   remainingMsgs = 2, wakeupSignals = 1\<rparr>"
      by (simp add: writeMsg_def canSendMessages_def tryPush_def socketExample_def)
    ultimately show ?thesis by (simp add: prod_eq_iff)
  qed
  from write_accepts_or_refuses [of "socketExample CONNECTING [''a'', ''b'']" "''c''"] 1
  have B: "writeMsg (socketExample CONNECTING [''a'', ''b'']) ''c'' = (Inr False, socketExample CONNECTING [''a'', ''b''])"
    by blast
  from write_accepts_or_refuses [of "socketExample DISCONNECTING []" "''c''"] 1
  have C: "writeMsg (socketExample DISCONNECTING []) ''c''
       = (Inl CannotWriteWhileNotConnected, socketExample DISCONNECTING [])"
    by blast
  from A B C show ?thesis by simp
qed

end
